theory Spec2Isabelle
  imports Main "HOL-Library.Word"
begin

unbundle bit_operations_syntax

section \<open>The node model (\<^verbatim>\<open>Papr::Node\<close>)\<close>

text \<open>
  \<^verbatim>\<open>enum Papr::NodeType : uint8_t { None, Group, Key, Value }\<close>.  The enumerator
  \<^verbatim>\<open>None\<close> is written \<open>NodeNone\<close>, since \<open>None\<close> is the constructor of \<open>option\<close>.
\<close>

datatype NodeType = NodeNone | Group | Key | Value

text \<open>
  \<^verbatim>\<open>struct Papr::Node\<close> has the private fields \<^verbatim>\<open>m_type\<close>, \<^verbatim>\<open>m_text\<close> and
  \<^verbatim>\<open>m_children\<close>, a vector of \<^verbatim>\<open>unique_ptr<Node>\<close>.  Every child is created by
  \<^verbatim>\<open>make_unique\<close> in \<^verbatim>\<open>AddNode\<close> or in the copy constructor and a node owns its
  children, so the vector is a list of nodes.
\<close>

datatype Node = Node (m_type: NodeType) (m_text: string) (m_children: "Node list")

text \<open>The default-constructed node: type \<^verbatim>\<open>None\<close>, empty text, no children.\<close>

definition Node_default :: Node where
  "Node_default = Node NodeNone [] []"

definition MakeGroup :: Node where
  "MakeGroup = Node Group [] []"

definition MakeKey :: "string \<Rightarrow> Node" where
  "MakeKey key = Node Key key []"

definition MakeValue :: "string \<Rightarrow> Node" where
  "MakeValue v = Node Value v []"

text \<open>
  \<^verbatim>\<open>Node& AddNode(const Node& node)\<close> appends a copy of the node to the children.
  The model returns the updated owner; the reference the source returns denotes its
  last child.
\<close>

fun AddNode :: "Node \<Rightarrow> Node \<Rightarrow> Node" where
  "AddNode (Node ty txt cs) n = Node ty txt (cs @ [n])"

text \<open>
  The ways the source can end other than by returning: an operation whose behaviour
  the C++ standard leaves undefined, a \<^verbatim>\<open>std::out_of_range\<close> thrown by a string
  member function, and a failed \<^verbatim>\<open>assert\<close>.
\<close>

datatype failure = Undefined_behaviour | Out_of_range | Assertion_failed

text \<open>
  A \<^verbatim>\<open>Node&\<close> returned by an accessor refers either to the static object
  \<^verbatim>\<open>Node::INVALID\<close> or to a child.  The reference is an \<open>option\<close>: \<open>None\<close> is
  \<^verbatim>\<open>INVALID\<close>, \<open>Some c\<close> the child \<open>c\<close>.  In the same way a returned
  \<^verbatim>\<open>const std::string&\<close> is \<open>None\<close> when it is \<^verbatim>\<open>INVALID.m_text\<close>.
\<close>

type_synonym NodeRef = "Node option"

text \<open>
  \<^verbatim>\<open>Node Papr::Node::INVALID = Papr::Node()\<close>: the value that the static object is
  initialised with.  The library never assigns to the object, and the model takes it
  to hold this value whenever it is copied.
\<close>

definition INVALID_value :: Node where
  "INVALID_value = Node_default"

text \<open>\<^verbatim>\<open>bool IsInvalid() const { return this == &INVALID; }\<close>: a test of identity.\<close>

definition IsInvalid :: "NodeRef \<Rightarrow> bool" where
  "IsInvalid r = (r = None)"

text \<open>\<^verbatim>\<open>Node& operator[](size_t index)\<close>\<close>

definition index_at :: "Node \<Rightarrow> nat \<Rightarrow> NodeRef" where
  "index_at n index =
     (if index < length (m_children n) then Some (m_children n ! index) else None)"

text \<open>
  \<^verbatim>\<open>Node& operator[](const std::string& key)\<close>: the loop over the children,
  returning at the first child of type \<^verbatim>\<open>Key\<close> whose text equals the key.
\<close>

fun index_key_loop :: "Node list \<Rightarrow> string \<Rightarrow> NodeRef" where
  "index_key_loop [] key = None"
| "index_key_loop (child # rest) key =
     (if m_type child = Key then
        (if m_text child = key then Some child else index_key_loop rest key)
      else index_key_loop rest key)"

definition index_key :: "Node \<Rightarrow> string \<Rightarrow> NodeRef" where
  "index_key n key = index_key_loop (m_children n) key"

definition HasKey :: "Node \<Rightarrow> bool" where
  "HasKey n = (m_type n = Key)"

definition HasValue :: "Node \<Rightarrow> bool" where
  "HasValue n =
     (if m_type n = Key \<or> m_type n = Group then
        (if length (m_children n) = 1 then
           (if m_type (m_children n ! 0) = Value then True else False)
         else False)
      else False)"

definition GetKey :: "Node \<Rightarrow> string option" where
  "GetKey n = (if m_type n = Key then Some (m_text n) else None)"

definition GetValue :: "Node \<Rightarrow> string option" where
  "GetValue n = (if HasValue n then Some (m_text (m_children n ! 0)) else None)"

text \<open>
  \<^verbatim>\<open>void RemoveNodeAtIndex(size_t idx) { m_children.erase(m_children.begin() + idx); }\<close>
  There is no test of \<^verbatim>\<open>idx\<close>: erasing at an iterator that is not dereferenceable is
  undefined behaviour, which the model makes a result of its own.
\<close>

definition RemoveNodeAtIndex :: "Node \<Rightarrow> nat \<Rightarrow> failure + Node" where
  "RemoveNodeAtIndex n idx =
     (if idx < length (m_children n)
      then Inr (Node (m_type n) (m_text n)
                  (take idx (m_children n) @ drop (Suc idx) (m_children n)))
      else Inl Undefined_behaviour)"

subsection \<open>Simplification\<close>

text \<open>
  The second loop of \<^verbatim>\<open>Simplify\<close>: the texts of the children, each but the last
  followed by one space.  \<open>count\<close> and \<open>sz\<close> are the loop counter and
  \<^verbatim>\<open>m_children.size()\<close>.
\<close>

fun combine_text :: "Node list \<Rightarrow> nat \<Rightarrow> nat \<Rightarrow> string \<Rightarrow> string" where
  "combine_text [] count sz combined_text = combined_text"
| "combine_text (child # rest) count sz combined_text =
     combine_text rest (Suc count) sz
       (combined_text @ m_text child @ (if count < sz - 1 then '' '' else ''''))"

text \<open>The first loop of the second rule: are all children \<^verbatim>\<open>Value\<close> nodes?\<close>

fun are_all_value_nodes :: "Node list \<Rightarrow> bool" where
  "are_all_value_nodes [] = True"
| "are_all_value_nodes (child # rest) =
     (if m_type child \<noteq> Value then False else are_all_value_nodes rest)"

text \<open>
  The three rewriting steps of \<^verbatim>\<open>Simplify\<close>, applied to a node whose children have
  been simplified already, in the order of the source.
\<close>

definition collapse_group :: "NodeType \<Rightarrow> Node list \<Rightarrow> Node list" where
  "collapse_group ty cs =
     (if ty = Key \<and> length cs = 1 \<and> m_type (cs ! 0) = Group
      then m_children (cs ! 0) else cs)"

definition merge_values :: "NodeType \<Rightarrow> Node list \<Rightarrow> Node list" where
  "merge_values ty cs =
     (if (ty = Key \<or> ty = Group) \<and> length cs > 1 then
        (if are_all_value_nodes cs
         then [MakeValue (combine_text cs 0 (length cs) [])]
         else cs)
      else cs)"

definition retype_key :: "NodeType \<Rightarrow> Node list \<Rightarrow> NodeType" where
  "retype_key ty cs = (if ty = Key \<and> length cs = 0 then Value else ty)"

fun Simplify :: "Node \<Rightarrow> Node" where
  "Simplify (Node ty txt cs) =
     (let cs1 = map Simplify cs;
          cs2 = collapse_group ty cs1;
          cs3 = merge_values ty cs2
      in Node (retype_key ty cs3) txt cs3)"

definition SimplifyCopy :: "Node \<Rightarrow> Node" where
  "SimplifyCopy n = Simplify n"

section \<open>The tokenizer\<close>

text \<open>The characters the source names by escape sequences.\<close>

abbreviation nl :: char where "nl \<equiv> CHR 0x0A"
abbreviation dq :: char where "dq \<equiv> CHR 0x22"
abbreviation bs :: char where "bs \<equiv> CHR 0x5C"
abbreviation nul :: char where "nul \<equiv> CHR 0x00"
abbreviation sp :: char where "sp \<equiv> CHR 0x20"

text \<open>
  \<^verbatim>\<open>enum TokenType : uint8_t { None = 1 << 0, Text = 1 << 1, Colon = 1 << 2 }\<close>.
  \<open>TokenType_bits\<close> is the value of an enumerator; the flag argument of
  \<^verbatim>\<open>seekFn\<close> is a \<^verbatim>\<open>uint32_t\<close>.
\<close>

datatype TokenType = TokenNone | Text | Colon

fun TokenType_bits :: "TokenType \<Rightarrow> 32 word" where
  "TokenType_bits TokenNone = push_bit 0 1"
| "TokenType_bits Text = push_bit 1 1"
| "TokenType_bits Colon = push_bit 2 1"

record Token =
  tok_type :: TokenType
  tok_text :: string
  tok_column :: "32 word"
  tok_line :: "32 word"

text \<open>\<^verbatim>\<open>Token { }\<close>: the default member initialisers.\<close>

definition Token_default :: Token where
  "Token_default = \<lparr>tok_type = TokenNone, tok_text = [], tok_column = 0, tok_line = 0\<rparr>"

subsection \<open>\<^verbatim>\<open>size_t\<close> and \<^verbatim>\<open>std::string\<close>\<close>

text \<open>
  Positions and lengths are \<^verbatim>\<open>size_t\<close>, here 64 bits: natural numbers with the
  wrap-around of subtraction and addition written out.
\<close>

definition size_t_sub :: "nat \<Rightarrow> nat \<Rightarrow> nat" where
  "size_t_sub a b = (if b \<le> a then a - b else a + 2 ^ 64 - b)"

definition size_t_add :: "nat \<Rightarrow> nat \<Rightarrow> nat" where
  "size_t_add a b = (a + b) mod 2 ^ 64"

text \<open>
  \<^verbatim>\<open>s.substr(pos, n)\<close> and \<^verbatim>\<open>s.erase(pos, n)\<close> throw \<^verbatim>\<open>std::out_of_range\<close> when
  \<^verbatim>\<open>pos > s.size()\<close> and clamp \<^verbatim>\<open>n\<close> to the rest of the string otherwise.
  \<^verbatim>\<open>s.find(c, pos)\<close> is the first position from \<^verbatim>\<open>pos\<close> on that holds \<^verbatim>\<open>c\<close>;
  \<open>None\<close> is \<^verbatim>\<open>npos\<close>.
\<close>

definition substr :: "string \<Rightarrow> nat \<Rightarrow> nat \<Rightarrow> failure + string" where
  "substr s pos n = (if pos > length s then Inl Out_of_range else Inr (take n (drop pos s)))"

definition erase :: "string \<Rightarrow> nat \<Rightarrow> nat \<Rightarrow> failure + string" where
  "erase s pos n =
     (if pos > length s then Inl Out_of_range else Inr (take pos s @ drop (pos + n) s))"

definition find_char :: "string \<Rightarrow> char \<Rightarrow> nat \<Rightarrow> nat option" where
  "find_char s c pos =
     (if c \<in> set (drop pos s)
      then Some (pos + length (takeWhile (\<lambda>x. x \<noteq> c) (drop pos s)))
      else None)"

definition starts_with :: "string \<Rightarrow> char \<Rightarrow> bool" where
  "starts_with s c = (case s of [] \<Rightarrow> False | x # _ \<Rightarrow> x = c)"

definition ends_with :: "string \<Rightarrow> char \<Rightarrow> bool" where
  "ends_with s c = (s \<noteq> [] \<and> last s = c)"

subsection \<open>\<^verbatim>\<open>Papr::Internal::Trim\<close>\<close>

text \<open>
  The first loop of \<^verbatim>\<open>Trim\<close>: \<open>start\<close> becomes the index of the first character
  that is not a space, \<open>end\<close> that of the last one.
\<close>

fun Trim_scan :: "string \<Rightarrow> nat \<Rightarrow> nat \<times> nat \<times> bool \<Rightarrow> nat \<times> nat \<times> bool" where
  "Trim_scan [] i (start, endi, hasFoundFirstChar) = (start, endi, hasFoundFirstChar)"
| "Trim_scan (c # cs) i (start, endi, hasFoundFirstChar) =
     Trim_scan cs (Suc i)
       (if c \<noteq> sp \<and> \<not> hasFoundFirstChar then i else start,
        if c \<noteq> sp then i else endi,
        if c \<noteq> sp \<and> \<not> hasFoundFirstChar then True else hasFoundFirstChar)"

lemma length_takeWhile_neq:
  "c \<in> set xs \<Longrightarrow> length (takeWhile (\<lambda>x. x \<noteq> c) xs) < length xs"
  by (induction xs) auto

lemma find_char_bounds:
  "find_char s c pos = Some p \<Longrightarrow> pos \<le> p \<and> p < length s"
proof -
  assume a: "find_char s c pos = Some p"
  then have m: "c \<in> set (drop pos s)"
    by (auto simp: find_char_def split: if_splits)
  from a have p: "p = pos + length (takeWhile (\<lambda>x. x \<noteq> c) (drop pos s))"
    by (auto simp: find_char_def split: if_splits)
  have "length (takeWhile (\<lambda>x. x \<noteq> c) (drop pos s)) < length (drop pos s)"
    using m by (rule length_takeWhile_neq)
  with p show ?thesis by simp
qed

text \<open>
  The \<^verbatim>\<open>while\<close> loop of \<^verbatim>\<open>Trim\<close>, entered with \<^verbatim>\<open>newLinePos != npos\<close>: it
  erases up to \<^verbatim>\<open>tokenStartCol\<close> characters at the start of the line after each
  newline.
\<close>

function Trim_dedent :: "nat \<Rightarrow> string \<Rightarrow> nat \<Rightarrow> failure + string" where
  "Trim_dedent tokenStartCol result newLinePos =
     (let start = newLinePos + 1 in
      if start \<ge> length result then Inr result
      else
        let nxt = find_char result nl start;
            len = (case nxt of None \<Rightarrow> length result - start | Some nx \<Rightarrow> nx - start)
        in case erase result start (min tokenStartCol len) of
             Inl e \<Rightarrow> Inl e
           | Inr result' \<Rightarrow>
               (case find_char result' nl start of
                  None \<Rightarrow> Inr result'
                | Some p \<Rightarrow> Trim_dedent tokenStartCol result' p))"
  by pat_completeness auto
termination
proof (relation "measure (\<lambda>(col, result, newLinePos). length result - newLinePos)", goal_cases)
  case 1
  show ?case by simp
next
  case (2 tokenStartCol result newLinePos start nxt len result' p)
  from 2 have r: "result' = take start result @ drop (start + min tokenStartCol len) result"
    by (auto simp: erase_def split: if_splits)
  from 2 have "start \<le> p" "p < length result'"
    using find_char_bounds by blast+
  moreover have "length result' \<le> length result" using r by simp
  moreover have "start = newLinePos + 1" using 2 by simp
  ultimately show ?case by simp
qed

declare Trim_dedent.simps [simp del]

definition Trim :: "string \<Rightarrow> nat \<Rightarrow> failure + string" where
  "Trim token tokenStartCol =
     (case Trim_scan token 0 (0, size_t_sub (length token) 1, False) of
        (start, endi, hasFoundFirstChar) \<Rightarrow>
          (case substr token start (size_t_add (size_t_sub endi start) 1) of
             Inl e \<Rightarrow> Inl e
           | Inr result \<Rightarrow>
               if starts_with result dq then
                 (case substr result 1
                         (size_t_sub (length result) (if ends_with result dq then 2 else 1)) of
                    Inl e \<Rightarrow> Inl e
                  | Inr result1 \<Rightarrow>
                      (case find_char result1 nl 0 of
                         None \<Rightarrow> Inr result1
                       | Some newLinePos \<Rightarrow> Trim_dedent tokenStartCol result1 newLinePos))
               else Inr result))"

subsection \<open>\<^verbatim>\<open>Papr::Internal::Tokenize\<close>\<close>

text \<open>The local variables of \<^verbatim>\<open>Tokenize\<close> that live across loop iterations.\<close>

record tokenizer =
  tokens :: "Token list"
  partialToken :: string
  charCol :: "32 word"
  charLine :: "32 word"
  tokenStartCol :: "32 word"
  tokenStartLine :: "32 word"
  inQuotes :: bool
  tokenHasContent :: bool
  inComment :: bool

definition tokenizer_init :: tokenizer where
  "tokenizer_init =
     \<lparr>tokens = [], partialToken = [], charCol = 0, charLine = 1,
      tokenStartCol = 0, tokenStartLine = 0,
      inQuotes = False, tokenHasContent = False, inComment = False\<rparr>"

definition isDelimiter :: "char \<Rightarrow> bool" where
  "isDelimiter c = (c = CHR '':'' \<or> c = nl \<or> c = CHR ''#'' \<or> c = nul)"

text \<open>
  One iteration of the loop, for the previous, current and next characters \<open>pc\<close>,
  \<open>c\<close> and \<open>nc\<close>, in two parts.  \<open>Tokenize_track\<close> is the body up to the
  handling of comments: it counts columns and lines, marks the first character of a
  token, and follows quotes and comments; the states \<open>s1\<close> to \<open>s7\<close> are the states
  after its statements, in order.  \<open>Tokenize_emit\<close> is the final
  \<^verbatim>\<open>if\<close>/\<^verbatim>\<open>else if\<close>, which extends the partial token and emits tokens.
\<close>

definition Tokenize_track :: "char \<Rightarrow> char \<Rightarrow> tokenizer \<Rightarrow> tokenizer" where
  "Tokenize_track pc c s0 =
     (let s1 = s0\<lparr>charCol := charCol s0 + 1\<rparr>;
          s2 = (if c = nl then s1\<lparr>charLine := charLine s1 + 1, charCol := 0\<rparr> else s1);
          isFirstCharInToken = (\<not> tokenHasContent s2 \<and> c \<noteq> sp \<and> c \<noteq> nl);
          s3 = (if isFirstCharInToken
                then s2\<lparr>tokenHasContent := True, tokenStartCol := charCol s2,
                        tokenStartLine := charLine s2\<rparr>
                else s2);
          s4 = (if isFirstCharInToken \<and> c = dq then s3\<lparr>inQuotes := True\<rparr> else s3);
          s5 = (if inQuotes s4 \<and> c = dq \<and> \<not> isFirstCharInToken \<and> pc \<noteq> bs
                then s4\<lparr>inQuotes := False\<rparr> else s4);
          s6 = (if \<not> inQuotes s5 \<and> c = CHR ''#'' then s5\<lparr>inComment := True\<rparr> else s5);
          s7 = (if inComment s6 \<and> c = nl
                then s6\<lparr>inComment := False, partialToken := [], tokenHasContent := False\<rparr>
                else s6)
      in s7)"

definition Tokenize_emit :: "char \<Rightarrow> char \<Rightarrow> tokenizer \<Rightarrow> failure + tokenizer" where
  "Tokenize_emit c nc s7 =
     (if \<not> inComment s7 \<and> (inQuotes s7 \<or> \<not> isDelimiter c) then
        (let s8 = s7\<lparr>partialToken := partialToken s7 @ [c]\<rparr>
         in if \<not> inQuotes s8 \<and> isDelimiter nc \<and> tokenHasContent s8 then
              (case Trim (partialToken s8) (unat (tokenStartCol s8)) of
                 Inl e \<Rightarrow> Inl e
               | Inr t \<Rightarrow>
                   Inr (s8\<lparr>tokens := tokens s8 @
                              [\<lparr>tok_type = Text, tok_text = t,
                                tok_column = tokenStartCol s8, tok_line = tokenStartLine s8\<rparr>],
                            partialToken := [], tokenHasContent := False\<rparr>))
            else Inr s8)
      else if \<not> inComment s7 \<and> c = CHR '':'' then
        Inr (s7\<lparr>tokens := tokens s7 @
                   [\<lparr>tok_type = Colon, tok_text = [],
                     tok_column = charCol s7, tok_line = charLine s7\<rparr>],
                 partialToken := [], tokenHasContent := False\<rparr>)
      else Inr s7)"

definition Tokenize_step :: "char \<Rightarrow> char \<Rightarrow> char \<Rightarrow> tokenizer \<Rightarrow> failure + tokenizer" where
  "Tokenize_step pc c nc s0 = Tokenize_emit c nc (Tokenize_track pc c s0)"

text \<open>
  The characters around position \<open>i\<close>.  \<^verbatim>\<open>(int)(i - 1) >= 0\<close> converts the
  \<^verbatim>\<open>size_t\<close> to a 32-bit signed integer, so the previous character is read only
  when the low 32 bits of \<open>i - 1\<close> are a non-negative \<^verbatim>\<open>int\<close>.
\<close>

definition next_char :: "string \<Rightarrow> nat \<Rightarrow> char" where
  "next_char data i = (if i + 1 < length data then data ! (i + 1) else nul)"

definition prev_char :: "string \<Rightarrow> nat \<Rightarrow> char" where
  "prev_char data i =
     (if 0 \<le> sint (word_of_nat i - 1 :: 32 word) then data ! (i - 1) else nul)"

text \<open>
  The \<^verbatim>\<open>for\<close> loop from index \<open>i\<close> up to \<open>n\<close>; \<^verbatim>\<open>Tokenize\<close> runs it from 0
  to \<^verbatim>\<open>data.length()\<close>.
\<close>

function Tokenize_loop :: "string \<Rightarrow> nat \<Rightarrow> nat \<Rightarrow> tokenizer \<Rightarrow> failure + tokenizer" where
  "Tokenize_loop data i n s =
     (if i < n then
        (case Tokenize_step (prev_char data i) (data ! i) (next_char data i) s of
           Inl e \<Rightarrow> Inl e
         | Inr s' \<Rightarrow> Tokenize_loop data (Suc i) n s')
      else Inr s)"
  by pat_completeness auto
termination
  by (relation "measure (\<lambda>(data, i, n, s). n - i)") auto

declare Tokenize_loop.simps [simp del]

definition Tokenize :: "string \<Rightarrow> failure + Token list" where
  "Tokenize data =
     (case Tokenize_loop data 0 (length data) tokenizer_init of
        Inl e \<Rightarrow> Inl e
      | Inr s \<Rightarrow> Inr (tokens s))"

section \<open>The tree builder (\<^verbatim>\<open>Papr::Parse\<close>)\<close>

text \<open>
  \<^verbatim>\<open>struct InternalStackData { Internal::Token token; Node* node; }\<close>.  Every
  \<^verbatim>\<open>Node*\<close> on the stack points into the tree that hangs from the local
  \<^verbatim>\<open>root\<close>; the model keeps the tree as a value and a pointer as the path of
  child indices that leads from the root to the object.  Children are only ever
  appended while the stack lives, so a path keeps denoting the same object.
\<close>

record InternalStackData =
  token :: Token
  node :: "nat list"

text \<open>The object a pointer denotes, and \<^verbatim>\<open>p->AddNode(n)\<close> for a pointer \<open>p\<close>.\<close>

fun node_at :: "Node \<Rightarrow> nat list \<Rightarrow> Node" where
  "node_at n [] = n"
| "node_at n (i # p) = node_at (m_children n ! i) p"

fun AddNode_at :: "Node \<Rightarrow> nat list \<Rightarrow> Node \<Rightarrow> Node" where
  "AddNode_at r [] n = AddNode r n"
| "AddNode_at (Node ty txt cs) (i # p) n = Node ty txt (cs[i := AddNode_at (cs ! i) p n])"

text \<open>
  The pointer \<^verbatim>\<open>&node\<close> to the child that \<^verbatim>\<open>p->AddNode(n)\<close> has just appended:
  the path of \<open>p\<close>, then the index the child received, which is the number of
  children \<open>p\<close> had before.
\<close>

definition added_node :: "Node \<Rightarrow> nat list \<Rightarrow> nat list" where
  "added_node r p = p @ [length (m_children (node_at r p))]"

text \<open>
  \<^verbatim>\<open>seekFn\<close>.  The stack is a list whose head is \<^verbatim>\<open>stack.back()\<close>.  The result is
  the stack the search leaves behind and the pointer it returns, \<open>None\<close> for
  \<^verbatim>\<open>nullptr\<close>.
\<close>

fun seekFn :: "InternalStackData list \<Rightarrow> 32 word \<Rightarrow> 32 word
                \<Rightarrow> InternalStackData list \<times> nat list option" where
  "seekFn [] col token_type_flag = ([], None)"
| "seekFn (back # stack) col token_type_flag =
     (if tok_column (token back) < col
         \<and> TokenType_bits (tok_type (token back)) AND token_type_flag \<noteq> 0
      then (back # stack, Some (node back))
      else seekFn stack col token_type_flag)"

text \<open>
  The loop over the tokens.  Its results: \<open>Inl Assertion_failed\<close> when the
  \<^verbatim>\<open>assert\<close> fails, \<open>Inr None\<close> when the loop is left at one of the two
  statements \<^verbatim>\<open>return Node::INVALID\<close>, and \<open>Inr (Some root)\<close> with the tree built
  when the loop runs to its end.
\<close>

fun Parse_loop :: "Token list \<Rightarrow> Node \<Rightarrow> InternalStackData list \<Rightarrow> failure + Node option" where
  "Parse_loop [] root stack = Inr (Some root)"
| "Parse_loop (tk # rest) root stack =
     (if tok_type tk = TokenNone then Inl Assertion_failed
      else if tok_type tk = Text then
        (case seekFn stack (tok_column tk) (TokenType_bits Colon OR TokenType_bits TokenNone) of
           (stack', Some node_to_attach_to) \<Rightarrow>
             Parse_loop rest
               (AddNode_at root node_to_attach_to (MakeKey (tok_text tk)))
               (\<lparr>token = tk, node = added_node root node_to_attach_to\<rparr> # stack')
         | (stack', None) \<Rightarrow> Inr None)
      else if tok_type tk = Colon then
        (case seekFn stack (tok_column tk) (TokenType_bits Text) of
           (stack', Some node_to_attach_to) \<Rightarrow>
             Parse_loop rest
               (AddNode_at root node_to_attach_to MakeGroup)
               (\<lparr>token = tk, node = added_node root node_to_attach_to\<rparr> # stack')
         | (stack', None) \<Rightarrow> Inr None)
      else Parse_loop rest root stack)"

text \<open>The frame pushed before the loop: a default token and the address of the root.\<close>

definition root_frame :: InternalStackData where
  "root_frame = \<lparr>token = Token_default, node = []\<rparr>"

text \<open>
  \<^verbatim>\<open>static Node Parse(const std::string& data)\<close> returns a node by value, so the
  object that the caller holds is never the static \<^verbatim>\<open>Node::INVALID\<close> itself: the
  result is \<open>Inr (Some v)\<close> with the value \<open>v\<close> of that object.  \<^verbatim>\<open>return root\<close>
  gives the simplified tree, and \<^verbatim>\<open>return Node::INVALID\<close> gives a copy of the
  static object.
\<close>

definition Parse :: "string \<Rightarrow> failure + Node option" where
  "Parse data =
     (case Tokenize data of
        Inl e \<Rightarrow> Inl e
      | Inr toks \<Rightarrow>
          (case Parse_loop toks Node_default [root_frame] of
             Inl e \<Rightarrow> Inl e
           | Inr None \<Rightarrow> Inr (Some INVALID_value)
           | Inr (Some root) \<Rightarrow> Inr (Some (Simplify root))))"

section \<open>The serializer\<close>

text \<open>\<^verbatim>\<open>add_spaces_fn\<close>: the loop that appends \<open>count\<close> spaces.\<close>

function add_spaces_fn :: "string \<Rightarrow> 32 word \<Rightarrow> string" where
  "add_spaces_fn txt count =
     (if count > 0 then add_spaces_fn (txt @ [sp]) (count - 1) else txt)"
  by pat_completeness auto
termination
proof (relation "measure (\<lambda>(txt, count). unat count)", goal_cases)
  case 1
  show ?case by simp
next
  case (2 str count)
  then have "count \<noteq> 0" by auto
  then have "unat (count - 1) < unat count"
    by (simp add: unat_minus_one unat_gt_0)
  then show ?case by simp
qed

declare add_spaces_fn.simps [simp del]

text \<open>The loop of \<^verbatim>\<open>sanitize_string\<close> over the characters of the text.\<close>

fun sanitize_loop :: "string \<Rightarrow> 32 word \<Rightarrow> string \<Rightarrow> string" where
  "sanitize_loop [] col out = out"
| "sanitize_loop (c # cs) col out =
     sanitize_loop cs col
       (if c = dq then out @ [bs, dq]
        else if c = nl then add_spaces_fn (out @ [nl]) col
        else out @ [c])"

definition sanitize_string :: "string \<Rightarrow> 32 word \<Rightarrow> string" where
  "sanitize_string txt col =
     (if find_char txt CHR '':'' 0 \<noteq> None
         \<or> find_char txt CHR ''#'' 0 \<noteq> None
         \<or> find_char txt nl 0 \<noteq> None
         \<or> starts_with txt dq
         \<or> starts_with txt sp
         \<or> ends_with txt sp
      then [dq] @ sanitize_loop txt col [] @ [dq]
      else txt)"

text \<open>
  \<^verbatim>\<open>SerializeRecursive\<close>, with the string \<open>out\<close> it appends to passed through.
  \<open>Serialize_children\<close> is its loop over the children of the node;
  \<^verbatim>\<open>child_count\<close> and \<^verbatim>\<open>depth\<close> are \<^verbatim>\<open>uint32_t\<close>, and the depth of the recursive
  call for a key is computed in \<^verbatim>\<open>size_t\<close> and truncated to 32 bits.
\<close>

fun SerializeRecursive :: "32 word \<Rightarrow> Node \<Rightarrow> string \<Rightarrow> string"
  and Serialize_children :: "32 word \<Rightarrow> Node list \<Rightarrow> 32 word \<Rightarrow> string \<Rightarrow> string" where
  "SerializeRecursive depth (Node ty txt cs) out = Serialize_children depth cs 0 out"
| "Serialize_children depth [] child_count out = out"
| "Serialize_children depth (child # rest) child_count out =
     Serialize_children depth rest (child_count + 1)
       (if m_type child = Key then
          (let sanitized_key = sanitize_string (m_text child) (depth + 1);
               out1 = (if child_count \<noteq> 0 then add_spaces_fn out depth else out);
               out2 = out1 @ sanitized_key @ '': ''
           in SerializeRecursive (depth + word_of_nat (length sanitized_key) + 2) child out2)
        else if m_type child = Value then
          (let sanitized_value = sanitize_string (m_text child) (depth + 1);
               out1 = (if child_count \<noteq> 0 then add_spaces_fn out depth else out)
           in out1 @ sanitized_value @ [nl])
        else if m_type child = Group then
          (let out1 = (if child_count \<noteq> 0 then add_spaces_fn out (depth - 2) @ '': '' else out)
           in SerializeRecursive depth child out1)
        else out)"

definition Serialize :: "Node \<Rightarrow> string" where
  "Serialize n = SerializeRecursive 0 (SimplifyCopy n) []"


section \<open>Notions used in the statements\<close>

text \<open>The texts of a list, in order, with a single space between neighbours.\<close>

fun join_with_space :: "string list \<Rightarrow> string" where
  "join_with_space [] = []"
| "join_with_space [x] = x"
| "join_with_space (x # y # ys) = x @ '' '' @ join_with_space (y # ys)"

text \<open>
  A node that none of the three rules of \<^verbatim>\<open>Simplify\<close> applies to, and whose children
  are all of that kind.
\<close>

fun simplified :: "Node \<Rightarrow> bool" where
  "simplified (Node ty txt cs) =
     (list_all simplified cs
      \<and> \<not> (ty = Key \<and> length cs = 1 \<and> m_type (cs ! 0) = Group)
      \<and> \<not> ((ty = Key \<or> ty = Group) \<and> length cs > 1 \<and> are_all_value_nodes cs)
      \<and> \<not> (ty = Key \<and> length cs = 0))"

text \<open>
  A tree in which no \<^verbatim>\<open>Key\<close> node has, as its only child, a \<^verbatim>\<open>Group\<close> whose only
  child is a \<^verbatim>\<open>Group\<close> again.
\<close>

fun nested_group_free :: "Node \<Rightarrow> bool" where
  "nested_group_free (Node ty txt cs) =
     (list_all nested_group_free cs
      \<and> \<not> (ty = Key \<and> length cs = 1 \<and> m_type (cs ! 0) = Group
            \<and> length (m_children (cs ! 0)) = 1
            \<and> m_type (m_children (cs ! 0) ! 0) = Group))"

text \<open>
  The test that \<^verbatim>\<open>seekFn\<close> makes on a frame: its column is to the left of \<open>col\<close>
  and its token type is one of the flags.
\<close>

definition frame_matches :: "InternalStackData \<Rightarrow> 32 word \<Rightarrow> 32 word \<Rightarrow> bool" where
  "frame_matches f col flag =
     (tok_column (token f) < col \<and> TokenType_bits (tok_type (token f)) AND flag \<noteq> 0)"

text \<open>Token lists that hold \<^verbatim>\<open>Text\<close> and \<^verbatim>\<open>Colon\<close> tokens only.\<close>

definition typed_tokens :: "Token list \<Rightarrow> bool" where
  "typed_tokens ts = (\<forall>t \<in> set ts. tok_type t = Text \<or> tok_type t = Colon)"

text \<open>
  No iteration of the tokenizer fails (lemma \<open>Tokenize_step_eq\<close> below), so an
  iteration is a function on states and the loop is a fold over the positions.
  \<open>window data i\<close> is the previous, current and next character at position \<open>i\<close>.
\<close>

definition Trim_result :: "string \<Rightarrow> nat \<Rightarrow> string" where
  "Trim_result tk col = (case Trim tk col of Inl e \<Rightarrow> [] | Inr r \<Rightarrow> r)"

definition emit :: "char \<Rightarrow> char \<Rightarrow> tokenizer \<Rightarrow> tokenizer" where
  "emit c nc s =
     (if \<not> inComment s \<and> (inQuotes s \<or> \<not> isDelimiter c) then
        (if \<not> inQuotes s \<and> isDelimiter nc \<and> tokenHasContent s
         then s\<lparr>tokens := tokens s @
                    [\<lparr>tok_type = Text,
                      tok_text = Trim_result (partialToken s @ [c]) (unat (tokenStartCol s)),
                      tok_column = tokenStartCol s, tok_line = tokenStartLine s\<rparr>],
                 partialToken := [], tokenHasContent := False\<rparr>
         else s\<lparr>partialToken := partialToken s @ [c]\<rparr>)
      else if \<not> inComment s \<and> c = CHR '':'' then
        s\<lparr>tokens := tokens s @
               [\<lparr>tok_type = Colon, tok_text = [],
                 tok_column = charCol s, tok_line = charLine s\<rparr>],
           partialToken := [], tokenHasContent := False\<rparr>
      else s)"

definition step :: "char \<times> char \<times> char \<Rightarrow> tokenizer \<Rightarrow> tokenizer" where
  "step w s = (case w of (pc, c, nc) \<Rightarrow> emit c nc (Tokenize_track pc c s))"

definition window :: "string \<Rightarrow> nat \<Rightarrow> char \<times> char \<times> char" where
  "window data i = (prev_char data i, data ! i, next_char data i)"

text \<open>
  Inputs made of spaces, newlines and comments only; the flag tells whether the text
  starts inside a comment.
\<close>

fun only_comments :: "bool \<Rightarrow> string \<Rightarrow> bool" where
  "only_comments inC [] = True"
| "only_comments inC (c # cs) =
     (if inC then only_comments (c \<noteq> nl) cs
      else if c = CHR ''#'' then only_comments True cs
      else (c = sp \<or> c = nl) \<and> only_comments False cs)"

text \<open>The tokenizer between tokens (\<open>inC = False\<close>) or inside a comment.\<close>

definition idle :: "bool \<Rightarrow> tokenizer \<Rightarrow> bool" where
  "idle inC s = (\<not> inQuotes s \<and> inComment s = inC \<and> tokenHasContent s = inC)"

text \<open>
  What \<^verbatim>\<open>sanitize_string\<close> writes for one character of a text that it quotes, and
  its test for quoting.
\<close>

definition escape_char :: "32 word \<Rightarrow> char \<Rightarrow> string" where
  "escape_char col c =
     (if c = dq then [bs, dq] else if c = nl then nl # replicate (unat col) sp else [c])"

definition needs_quotes :: "string \<Rightarrow> bool" where
  "needs_quotes s =
     (CHR '':'' \<in> set s \<or> CHR ''#'' \<in> set s \<or> nl \<in> set s
      \<or> starts_with s dq \<or> starts_with s sp \<or> ends_with s sp)"

text \<open>
  The shape of the trees that the builder makes: no \<^verbatim>\<open>Value\<close> nodes, groups under
  keys only, and keys under the root and under groups only.  \<open>may_hold\<close> is that
  relation between the type of a node and the type of a child.
\<close>

fun raw_shape :: "Node \<Rightarrow> bool" where
  "raw_shape (Node ty tx cs) =
     (list_all raw_shape cs
      \<and> ty \<noteq> Value
      \<and> (ty = Key \<longrightarrow> list_all (\<lambda>c. m_type c = Group) cs)
      \<and> (ty \<noteq> Key \<longrightarrow> list_all (\<lambda>c. m_type c = Key) cs))"

definition may_hold :: "NodeType \<Rightarrow> NodeType \<Rightarrow> bool" where
  "may_hold parent child = (if parent = Key then child = Group else parent \<noteq> Value \<and> child = Key)"

text \<open>
  A path that denotes a node of the tree, and a stack frame whose pointer denotes a
  node of the type that belongs to the token of the frame.
\<close>

fun valid_path :: "Node \<Rightarrow> nat list \<Rightarrow> bool" where
  "valid_path n [] = True"
| "valid_path n (i # p) = (i < length (m_children n) \<and> valid_path (m_children n ! i) p)"

fun node_type_of :: "TokenType \<Rightarrow> NodeType" where
  "node_type_of TokenNone = NodeNone"
| "node_type_of Text = Key"
| "node_type_of Colon = Group"

definition frame_ok :: "Node \<Rightarrow> InternalStackData \<Rightarrow> bool" where
  "frame_ok r f =
     (valid_path r (node f) \<and> m_type (node_at r (node f)) = node_type_of (tok_type (token f)))"

text \<open>
  A text that the tokenizer reads as one token when it stands between delimiters: it
  is not empty, begins and ends with a character that is not a space, and contains
  neither a delimiter nor a double quote.
\<close>

definition plain_text :: "string \<Rightarrow> bool" where
  "plain_text w =
     (w \<noteq> [] \<and> hd w \<noteq> sp \<and> last w \<noteq> sp
      \<and> (\<forall>c \<in> set w. \<not> isDelimiter c \<and> c \<noteq> dq))"

text \<open>
  The tokenizer inside an unquoted token; the loop over a list of characters that
  is followed by the character \<open>follow\<close>; and the two kinds of token.
\<close>

definition in_token :: "tokenizer \<Rightarrow> bool" where
  "in_token s = (\<not> inQuotes s \<and> \<not> inComment s \<and> tokenHasContent s)"

fun scanf :: "string \<Rightarrow> char \<Rightarrow> tokenizer \<Rightarrow> tokenizer" where
  "scanf [] follow s = s"
| "scanf (c # cs) follow s =
     scanf cs follow (step (nul, c, (case cs of [] \<Rightarrow> follow | n # _ \<Rightarrow> n)) s)"

definition Text_token :: "string \<Rightarrow> 32 word \<Rightarrow> 32 word \<Rightarrow> Token" where
  "Text_token t col ln = \<lparr>tok_type = Text, tok_text = t, tok_column = col, tok_line = ln\<rparr>"

definition Colon_token :: "32 word \<Rightarrow> 32 word \<Rightarrow> Token" where
  "Colon_token col ln = \<lparr>tok_type = Colon, tok_text = [], tok_column = col, tok_line = ln\<rparr>"



section \<open>Node accessors\<close>

lemma index_key_loop_find:
  "index_key_loop cs key = List.find (\<lambda>c. m_type c = Key \<and> m_text c = key) cs"
  by (induction cs) auto

text \<open>
  Claim C8.  A lookup that misses returns the sentinel \<^verbatim>\<open>INVALID\<close> (\<open>None\<close>) and
  signals no error.  Indexing by position returns the child at the index when the index
  is in range and the sentinel when it is not.  Indexing by key returns the first child
  that is a \<^verbatim>\<open>Key\<close> node whose text equals the key, and the sentinel exactly when
  there is no such child.  \<^verbatim>\<open>GetValue\<close> on a node that does not have exactly one
  \<^verbatim>\<open>Value\<close> child, or that is neither a \<^verbatim>\<open>Key\<close> nor a \<^verbatim>\<open>Group\<close>, returns the
  text of the sentinel.
\<close>

theorem lookup_miss_returns_INVALID:
  "(index < length (m_children n) \<longrightarrow> index_at n index = Some (m_children n ! index))
   \<and> (\<not> index < length (m_children n) \<longrightarrow> index_at n index = None)
   \<and> index_key n key = List.find (\<lambda>c. m_type c = Key \<and> m_text c = key) (m_children n)
   \<and> (index_key n key = None \<longleftrightarrow>
        \<not> (\<exists>c \<in> set (m_children n). m_type c = Key \<and> m_text c = key))
   \<and> (\<not> (\<exists>v. m_children n = [v] \<and> m_type v = Value) \<longrightarrow> GetValue n = None)
   \<and> (m_type n \<noteq> Key \<and> m_type n \<noteq> Group \<longrightarrow> GetValue n = None)"
proof -
  have a: "index_key n key = List.find (\<lambda>c. m_type c = Key \<and> m_text c = key) (m_children n)"
    by (simp add: index_key_def index_key_loop_find)
  have b: "index_key n key = None \<longleftrightarrow>
        \<not> (\<exists>c \<in> set (m_children n). m_type c = Key \<and> m_text c = key)"
    unfolding a by (auto simp: find_None_iff)
  have c: "\<not> (\<exists>v. m_children n = [v] \<and> m_type v = Value) \<longrightarrow> GetValue n = None"
  proof
    assume h: "\<not> (\<exists>v. m_children n = [v] \<and> m_type v = Value)"
    have "\<not> HasValue n"
    proof
      assume hv: "HasValue n"
      then have l: "length (m_children n) = 1" and v: "m_type (m_children n ! 0) = Value"
        by (auto simp: HasValue_def split: if_splits)
      from l obtain v0 where "m_children n = [v0]"
        by (cases "m_children n") auto
      with v h show False by simp
    qed
    then show "GetValue n = None" by (simp add: GetValue_def)
  qed
  have d: "m_type n \<noteq> Key \<and> m_type n \<noteq> Group \<longrightarrow> GetValue n = None"
    by (simp add: GetValue_def HasValue_def)
  show ?thesis using a b c d by (simp add: index_at_def)
qed

text \<open>
  The three lookups on a group with a value and two keys of the same name, and
  \<^verbatim>\<open>GetValue\<close> on a root with a single value.
\<close>

theorem lookup_miss_returns_INVALID_witness:
  "index_at (Node Group [] [Node Value ''v'' [], Node Key ''k'' [], Node Key ''k'' [Node Value ''w'' []]]) 3 = None
   \<and> index_at (Node Group [] [Node Value ''v'' [], Node Key ''k'' [], Node Key ''k'' [Node Value ''w'' []]]) 1
        = Some (Node Key ''k'' [])
   \<and> index_key (Node Group [] [Node Value ''v'' [], Node Key ''k'' [], Node Key ''k'' [Node Value ''w'' []]]) ''k''
        = Some (Node Key ''k'' [])
   \<and> index_key (Node Group [] [Node Value ''v'' [], Node Key ''k'' [], Node Key ''k'' [Node Value ''w'' []]]) ''v''
        = None
   \<and> GetValue (Node Group [] [Node Value ''v'' [], Node Key ''k'' [], Node Key ''k'' [Node Value ''w'' []]]) = None
   \<and> GetValue (Node NodeNone [] [Node Value ''v'' []]) = None"
  using lookup_miss_returns_INVALID
          [of 3 "Node Group [] [Node Value ''v'' [], Node Key ''k'' [], Node Key ''k'' [Node Value ''w'' []]]" "''v''"]
        lookup_miss_returns_INVALID
          [of 1 "Node Group [] [Node Value ''v'' [], Node Key ''k'' [], Node Key ''k'' [Node Value ''w'' []]]" "''k''"]
        lookup_miss_returns_INVALID [of 0 "Node NodeNone [] [Node Value ''v'' []]" "''k''"]
  by simp

text \<open>
  Claim C10.  \<^verbatim>\<open>RemoveNodeAtIndex\<close> needs an index below the number of children.
  Under that precondition it returns normally, and the node it leaves has the same type
  and text and one child fewer: the children before the index stay where they were and
  each later child moves down by one position, so exactly the child at the index is gone
  and the order of the others is kept.  Without the precondition there is no bounds
  check: the call is undefined behaviour, where indexing by position at the same index
  returns the sentinel.
\<close>

theorem RemoveNodeAtIndex_in_range:
  "(idx < length (m_children n) \<longrightarrow>
      (\<exists>n'. RemoveNodeAtIndex n idx = Inr n'
         \<and> m_type n' = m_type n \<and> m_text n' = m_text n
         \<and> Suc (length (m_children n')) = length (m_children n)
         \<and> (\<forall>j. j < idx \<longrightarrow> m_children n' ! j = m_children n ! j)
         \<and> (\<forall>j. idx \<le> j \<and> j < length (m_children n') \<longrightarrow>
                m_children n' ! j = m_children n ! Suc j)))
   \<and> (\<not> idx < length (m_children n) \<longrightarrow>
        RemoveNodeAtIndex n idx = Inl Undefined_behaviour \<and> index_at n idx = None)"
proof (cases "idx < length (m_children n)")
  case True
  let ?cs = "m_children n"
  let ?cs' = "take idx ?cs @ drop (Suc idx) ?cs"
  have len: "Suc (length ?cs') = length ?cs" using True by simp
  have before: "\<forall>j. j < idx \<longrightarrow> ?cs' ! j = ?cs ! j"
    using True by (simp add: nth_append)
  have after: "\<forall>j. idx \<le> j \<and> j < length ?cs' \<longrightarrow> ?cs' ! j = ?cs ! Suc j"
  proof (intro allI impI)
    fix j assume j: "idx \<le> j \<and> j < length ?cs'"
    then have "?cs' ! j = drop (Suc idx) ?cs ! (j - idx)"
      using True by (simp add: nth_append min_def)
    also have "\<dots> = ?cs ! (Suc idx + (j - idx))"
      using j True by (intro nth_drop) simp
    finally show "?cs' ! j = ?cs ! Suc j" using j by simp
  qed
  show ?thesis using True len before after
    by (simp add: RemoveNodeAtIndex_def)
next
  case False
  then show ?thesis by (simp add: RemoveNodeAtIndex_def index_at_def)
qed

text \<open>Removing the middle one of three children, and an index out of range.\<close>

theorem RemoveNodeAtIndex_in_range_witness:
  "RemoveNodeAtIndex (Node Key ''k'' [Node Value ''a'' [], Node Value ''b'' [], Node Value ''c'' []]) 1
     = Inr (Node Key ''k'' [Node Value ''a'' [], Node Value ''c'' []])
   \<and> RemoveNodeAtIndex (Node Key ''k'' [Node Value ''a'' [], Node Value ''b'' [], Node Value ''c'' []]) 3
     = Inl Undefined_behaviour
   \<and> index_at (Node Key ''k'' [Node Value ''a'' [], Node Value ''b'' [], Node Value ''c'' []]) 3 = None"
  using RemoveNodeAtIndex_in_range
          [of 1 "Node Key ''k'' [Node Value ''a'' [], Node Value ''b'' [], Node Value ''c'' []]"]
        RemoveNodeAtIndex_in_range
          [of 3 "Node Key ''k'' [Node Value ''a'' [], Node Value ''b'' [], Node Value ''c'' []]"]
  by (simp add: RemoveNodeAtIndex_def)


section \<open>Simplification\<close>

lemma are_all_value_nodes_iff: "are_all_value_nodes cs \<longleftrightarrow> (\<forall>c \<in> set cs. m_type c = Value)"
  by (induction cs) auto

lemma combine_text_join:
  "combine_text cs count (count + length cs) acc = acc @ join_with_space (map m_text cs)"
proof (induction cs arbitrary: count acc)
  case Nil
  show ?case by simp
next
  case (Cons c cs)
  show ?case
  proof (cases cs)
    case Nil
    then show ?thesis by simp
  next
    case (Cons d ds)
    have "combine_text (c # cs) count (count + length (c # cs)) acc
          = combine_text cs (Suc count) (Suc count + length cs) (acc @ m_text c @ '' '')"
      using Cons by simp
    also have "\<dots> = (acc @ m_text c @ '' '') @ join_with_space (map m_text cs)"
      by (rule Cons.IH)
    finally show ?thesis using Cons by simp
  qed
qed

lemma m_text_Simplify [simp]: "m_text (Simplify n) = m_text n"
  by (cases n) (simp add: Let_def)

lemma m_type_Simplify_Value: "m_type n = Value \<Longrightarrow> m_type (Simplify n) = Value"
  by (cases n) (simp add: Let_def retype_key_def)

lemma m_type_Simplify_Group: "m_type (Simplify n) = Group \<longleftrightarrow> m_type n = Group"
  by (cases n) (auto simp add: Let_def retype_key_def)

lemma Simplify_merge_values:
  assumes "ty = Key \<or> ty = Group" and "2 \<le> length cs" and "\<forall>c \<in> set cs. m_type c = Value"
  shows "Simplify (Node ty txt cs) = Node ty txt [Node Value (join_with_space (map m_text cs)) []]"
proof -
  let ?cs1 = "map Simplify cs"
  have vals: "\<forall>c \<in> set ?cs1. m_type c = Value"
    using assms(3) by (auto simp: m_type_Simplify_Value)
  have len: "length ?cs1 = length cs" by simp
  have "?cs1 ! 0 \<in> set ?cs1" using assms(2) by (intro nth_mem) auto
  then have "m_type (?cs1 ! 0) = Value" using vals by blast
  then have c: "collapse_group ty ?cs1 = ?cs1" by (simp add: collapse_group_def)
  have texts: "map m_text ?cs1 = map m_text cs" by simp
  have "combine_text ?cs1 0 (0 + length ?cs1) [] = [] @ join_with_space (map m_text ?cs1)"
    by (rule combine_text_join)
  then have ct: "combine_text ?cs1 0 (length cs) [] = join_with_space (map m_text cs)"
    by (simp add: comp_def)
  have m: "merge_values ty ?cs1 = [Node Value (join_with_space (map m_text cs)) []]"
    using assms(1,2) vals ct by (simp add: merge_values_def are_all_value_nodes_iff MakeValue_def)
  show ?thesis using c m by (simp add: Let_def retype_key_def)
qed

lemma paragraph_tokens:
  assumes "0 < c1" "c1 < c2" "c2 < c3" "c2 < c4"
  shows "Parse_loop
           [\<lparr>tok_type = Text, tok_text = k, tok_column = c1, tok_line = l1\<rparr>,
            \<lparr>tok_type = Colon, tok_text = [], tok_column = c2, tok_line = l1\<rparr>,
            \<lparr>tok_type = Text, tok_text = a, tok_column = c3, tok_line = l1\<rparr>,
            \<lparr>tok_type = Text, tok_text = b, tok_column = c4, tok_line = l2\<rparr>]
           Node_default [root_frame]
         = Inr (Some (Node NodeNone [] [Node Key k [Node Group [] [Node Key a [], Node Key b []]]]))"
  using assms
  by (simp add: root_frame_def Token_default_def Node_default_def MakeKey_def MakeGroup_def
        added_node_def)

lemma simplified_fixed: "simplified n \<Longrightarrow> Simplify n = n"
proof (induction n)
  case (Node ty tx cs)
  from Node.prems have all: "list_all simplified cs" by simp
  have "map Simplify cs = cs"
    using Node.IH all by (simp add: list_all_iff map_idI)
  moreover have "collapse_group ty cs = cs" using Node.prems by (auto simp: collapse_group_def)
  moreover have "merge_values ty cs = cs" using Node.prems by (auto simp: merge_values_def)
  moreover have "retype_key ty cs = ty" using Node.prems by (auto simp: retype_key_def)
  ultimately show ?case by (simp add: Let_def)
qed

lemma simplified_Simplify: "nested_group_free n \<Longrightarrow> simplified (Simplify n)"
proof (induction n)
  case (Node ty tx cs)
  let ?cs1 = "map Simplify cs"
  let ?cs2 = "collapse_group ty ?cs1"
  let ?cs3 = "merge_values ty ?cs2"
  have kids: "list_all simplified ?cs1"
    using Node by (auto simp: list_all_iff)
  have S: "Simplify (Node ty tx cs) = Node (retype_key ty ?cs3) tx ?cs3"
    by (simp add: Let_def)
  show ?case
  proof (cases "ty = Key \<and> length ?cs1 = 1 \<and> m_type (?cs1 ! 0) = Group")
    case True
    then obtain g where cs: "cs = [g]" by (cases cs) auto
    with True have gG: "m_type g = Group" by (simp add: m_type_Simplify_Group)
    obtain gty gtxt gs where g: "g = Node gty gtxt gs" by (cases g)
    with gG have gty: "gty = Group" by simp
    let ?gs1 = "map Simplify gs"
    have Sg: "Simplify g = Node Group gtxt (merge_values Group ?gs1)"
      using g gty by (simp add: Let_def collapse_group_def retype_key_def)
    have sg: "simplified (Simplify g)" using kids cs by simp
    have cs2: "?cs2 = merge_values Group ?gs1"
      using True cs Sg by (simp add: collapse_group_def)
    have kids2: "list_all simplified ?cs2" using sg Sg cs2 by simp
    have notall: "\<not> (length ?cs2 > 1 \<and> are_all_value_nodes ?cs2)"
      using sg Sg cs2 by simp
    then have cs3: "?cs3 = ?cs2" by (auto simp: merge_values_def)
    have nogroup: "\<not> (length ?cs2 = 1 \<and> m_type (?cs2 ! 0) = Group)"
    proof
      assume a: "length ?cs2 = 1 \<and> m_type (?cs2 ! 0) = Group"
      have "?cs2 = ?gs1"
      proof (rule ccontr)
        assume "?cs2 \<noteq> ?gs1"
        then have "?cs2 = [MakeValue (combine_text ?gs1 0 (length ?gs1) [])]"
          unfolding cs2 by (simp add: merge_values_def split: if_splits)
        with a show False by (simp add: MakeValue_def)
      qed
      with a have "length gs = 1" and "m_type (Simplify (gs ! 0)) = Group"
        by (auto simp: length_Suc_conv)
      then have "length gs = 1" and "m_type (gs ! 0) = Group"
        by (simp_all add: m_type_Simplify_Group)
      with Node.prems True cs g gty show False by simp
    qed
    show ?thesis
      unfolding S cs3 using True kids2 notall nogroup
      by (auto simp: retype_key_def)
  next
    case False
    then have cs2: "?cs2 = ?cs1" by (auto simp: collapse_group_def)
    show ?thesis
    proof (cases "(ty = Key \<or> ty = Group) \<and> length ?cs1 > 1 \<and> are_all_value_nodes ?cs1")
      case True
      then have "?cs3 = [MakeValue (combine_text ?cs1 0 (length ?cs1) [])]"
        unfolding cs2 by (simp add: merge_values_def)
      then show ?thesis unfolding S by (simp add: MakeValue_def retype_key_def)
    next
      case nm: False
      then have cs3: "?cs3 = ?cs1" unfolding cs2 by (auto simp: merge_values_def)
      show ?thesis unfolding S cs3 using False nm kids
        by (auto simp: retype_key_def)
    qed
  qed
qed

text \<open>The trees of the builder have the shape \<open>raw_shape\<close>.\<close>

lemma m_type_AddNode_at [simp]: "m_type (AddNode_at r p n) = m_type r"
  by (cases r; cases p) simp_all

lemma AddNode_at_keeps:
  "valid_path r q \<Longrightarrow>
   valid_path (AddNode_at r p n) q
   \<and> m_type (node_at (AddNode_at r p n) q) = m_type (node_at r q)"
proof (induction q arbitrary: r p)
  case Nil
  show ?case by simp
next
  case (Cons i q)
  obtain ty tx cs where r: "r = Node ty tx cs" by (cases r)
  from Cons.prems r have i: "i < length cs" and v: "valid_path (cs ! i) q" by simp_all
  show ?case
  proof (cases p)
    case Nil
    then show ?thesis using r i v by (simp add: nth_append)
  next
    case (Cons j p')
    show ?thesis
    proof (cases "i = j")
      case True
      from Cons.IH [OF v, of p'] show ?thesis
        using r Cons True i by simp
    next
      case False
      then show ?thesis using r Cons i v by simp
    qed
  qed
qed

lemma AddNode_at_added:
  "valid_path r p \<Longrightarrow>
   valid_path (AddNode_at r p n) (added_node r p)
   \<and> node_at (AddNode_at r p n) (added_node r p) = n"
proof (induction p arbitrary: r)
  case Nil
  obtain ty tx cs where r: "r = Node ty tx cs" by (cases r)
  show ?case by (simp add: r added_node_def)
next
  case (Cons i p)
  obtain ty tx cs where r: "r = Node ty tx cs" by (cases r)
  from Cons.prems r have i: "i < length cs" and v: "valid_path (cs ! i) p" by simp_all
  from Cons.IH [OF v] show ?case using r i by (simp add: added_node_def)
qed

lemma raw_shape_AddNode_at:
  "raw_shape r \<Longrightarrow> valid_path r p \<Longrightarrow> raw_shape n \<Longrightarrow>
   may_hold (m_type (node_at r p)) (m_type n) \<Longrightarrow> raw_shape (AddNode_at r p n)"
proof (induction p arbitrary: r)
  case Nil
  obtain ty tx cs where r: "r = Node ty tx cs" by (cases r)
  show ?case using Nil r by (auto simp: may_hold_def split: if_splits)
next
  case (Cons i p)
  obtain ty tx cs where r: "r = Node ty tx cs" by (cases r)
  from Cons.prems r have i: "i < length cs" and v: "valid_path (cs ! i) p" by simp_all
  have ci: "raw_shape (cs ! i)" using Cons.prems(1) r i by (simp add: list_all_length)
  have new: "raw_shape (AddNode_at (cs ! i) p n)"
    using Cons.IH [OF ci v Cons.prems(3)] Cons.prems(4) r by simp
  have all: "list_all raw_shape (cs[i := AddNode_at (cs ! i) p n])"
    using Cons.prems(1) r new i by (auto simp: list_all_length nth_list_update)
  have types: "map m_type (cs[i := AddNode_at (cs ! i) p n]) = map m_type cs"
    using i by (simp add: list_eq_iff_nth_eq nth_list_update)
  have "\<And>P. list_all (\<lambda>c. P (m_type c)) (cs[i := AddNode_at (cs ! i) p n])
            = list_all (\<lambda>c. P (m_type c)) cs"
    using i by (auto simp: list_all_length nth_list_update)
  from this [of "\<lambda>t. t = Group"] this [of "\<lambda>t. t = Key"] all Cons.prems(1)
  show ?case by (simp add: r)
qed

lemma seekFn_Some:
  "seekFn st col flag = (st', Some p) \<Longrightarrow>
   \<exists>f rest. st' = f # rest \<and> node f = p
            \<and> TokenType_bits (tok_type (token f)) AND flag \<noteq> 0 \<and> set st' \<subseteq> set st"
  by (induction st) (auto split: if_splits)

lemma Parse_loop_raw_shape:
  "raw_shape root \<Longrightarrow> \<forall>f \<in> set stack. frame_ok root f \<Longrightarrow>
   Parse_loop ts root stack = Inr (Some raw) \<Longrightarrow> raw_shape raw"
proof (induction ts arbitrary: root stack)
  case Nil
  then show ?case by simp
next
  case (Cons tk ts)
  have step: "raw_shape raw"
    if seek: "seekFn stack (tok_column tk) flag = (stack', Some p)"
      and flag: "\<And>f :: InternalStackData. TokenType_bits (tok_type (token f)) AND flag \<noteq> 0 \<Longrightarrow>
                   may_hold (node_type_of (tok_type (token f))) (m_type n)"
      and n: "raw_shape n" "m_type n = node_type_of (tok_type tk)"
      and run: "Parse_loop ts (AddNode_at root p n)
                  (\<lparr>token = tk, node = added_node root p\<rparr> # stack') = Inr (Some raw)"
    for flag stack' p n
  proof -
    from seekFn_Some [OF seek] obtain f rest where
      f: "stack' = f # rest" "node f = p"
         "TokenType_bits (tok_type (token f)) AND flag \<noteq> 0" "set stack' \<subseteq> set stack"
      by blast
    have fok: "frame_ok root f" using f Cons.prems(2) by auto
    then have vp: "valid_path root p"
      and tp: "m_type (node_at root p) = node_type_of (tok_type (token f))"
      using f(2) by (simp_all add: frame_ok_def)
    have shape: "raw_shape (AddNode_at root p n)"
      using Cons.prems(1) vp n(1) flag [OF f(3)] tp by (intro raw_shape_AddNode_at) simp_all
    have old: "\<forall>g \<in> set stack'. frame_ok (AddNode_at root p n) g"
    proof
      fix g assume "g \<in> set stack'"
      then have "frame_ok root g" using f(4) Cons.prems(2) by auto
      then show "frame_ok (AddNode_at root p n) g"
        using AddNode_at_keeps [of root "node g" p n] by (simp add: frame_ok_def)
    qed
    have new: "frame_ok (AddNode_at root p n) \<lparr>token = tk, node = added_node root p\<rparr>"
      using AddNode_at_added [OF vp, of n] n(2) by (simp add: frame_ok_def)
    from Cons.IH [OF shape _ run] old new show ?thesis by simp
  qed
  show ?case
  proof (cases "tok_type tk")
    case TokenNone
    then show ?thesis using Cons.prems(3) by simp
  next
    case Text
    obtain stack' r where
      seek: "seekFn stack (tok_column tk) (TokenType_bits Colon OR TokenType_bits TokenNone)
             = (stack', r)"
      by (cases "seekFn stack (tok_column tk) (TokenType_bits Colon OR TokenType_bits TokenNone)")
    with Cons.prems(3) Text obtain p where p: "r = Some p"
      and run: "Parse_loop ts (AddNode_at root p (MakeKey (tok_text tk)))
                  (\<lparr>token = tk, node = added_node root p\<rparr> # stack') = Inr (Some raw)"
      by (cases r) simp_all
    show ?thesis
    proof (rule step [OF seek [unfolded p] _ _ _ run])
      fix f :: InternalStackData
      assume "TokenType_bits (tok_type (token f))
                      AND (TokenType_bits Colon OR TokenType_bits TokenNone) \<noteq> 0"
      then show "may_hold (node_type_of (tok_type (token f))) (m_type (MakeKey (tok_text tk)))"
        by (cases "tok_type (token f)") (simp_all add: may_hold_def MakeKey_def)
    qed (simp_all add: MakeKey_def Text)
  next
    case Colon
    obtain stack' r where
      seek: "seekFn stack (tok_column tk) (TokenType_bits Text) = (stack', r)"
      by (cases "seekFn stack (tok_column tk) (TokenType_bits Text)")
    with Cons.prems(3) Colon obtain p where p: "r = Some p"
      and run: "Parse_loop ts (AddNode_at root p MakeGroup)
                  (\<lparr>token = tk, node = added_node root p\<rparr> # stack') = Inr (Some raw)"
      by (cases r) simp_all
    show ?thesis
    proof (rule step [OF seek [unfolded p] _ _ _ run])
      fix f :: InternalStackData
      assume "TokenType_bits (tok_type (token f)) AND TokenType_bits Text \<noteq> 0"
      then show "may_hold (node_type_of (tok_type (token f))) (m_type MakeGroup)"
        by (cases "tok_type (token f)") (simp_all add: may_hold_def MakeGroup_def)
    qed (simp_all add: MakeGroup_def Colon)
  qed
qed

lemma raw_shape_nested_group_free: "raw_shape n \<Longrightarrow> nested_group_free n"
proof (induction n)
  case (Node ty tx cs)
  then have kids: "list_all nested_group_free cs" by (auto simp: list_all_iff)
  have "\<not> (ty = Key \<and> length cs = 1 \<and> m_type (cs ! 0) = Group
            \<and> length (m_children (cs ! 0)) = 1
            \<and> m_type (m_children (cs ! 0) ! 0) = Group)"
  proof
    assume a: "ty = Key \<and> length cs = 1 \<and> m_type (cs ! 0) = Group
            \<and> length (m_children (cs ! 0)) = 1
            \<and> m_type (m_children (cs ! 0) ! 0) = Group"
    then have "raw_shape (cs ! 0)" using Node.prems by (simp add: list_all_length)
    with a show False by (cases "cs ! 0") (auto simp: list_all_length)
  qed
  with kids show ?case by simp
qed

lemma builder_tree_nested_group_free:
  assumes "Parse_loop ts Node_default [root_frame] = Inr (Some raw)"
  shows "nested_group_free raw"
proof -
  have "raw_shape Node_default" by (simp add: Node_default_def)
  moreover have "\<forall>f \<in> set [root_frame]. frame_ok Node_default f"
    by (simp add: frame_ok_def root_frame_def Token_default_def Node_default_def)
  ultimately have "raw_shape raw" using assms by (rule Parse_loop_raw_shape)
  then show ?thesis by (rule raw_shape_nested_group_free)
qed

text \<open>
  Claim C3, as stated: \<^verbatim>\<open>Simplify\<close> is idempotent on every tree of the node model.
  It is not.  A key whose only child is a group whose only child is an empty group loses
  one group in the first pass, which leaves a key with an empty group as its only child,
  and the second pass turns that into a value.
\<close>

theorem Simplify_not_idempotent:
  "Simplify (Simplify (Node Key ''k'' [Node Group [] [Node Group [] []]]))
     \<noteq> Simplify (Node Key ''k'' [Node Group [] [Node Group [] []]])"
  by (simp add: collapse_group_def merge_values_def retype_key_def)

text \<open>
  Claim C3, amended: \<^verbatim>\<open>Simplify\<close> is idempotent on every tree in which no \<^verbatim>\<open>Key\<close>
  node has, as its only child, a \<^verbatim>\<open>Group\<close> whose only child is a \<^verbatim>\<open>Group\<close>.
  Every raw tree that the builder makes of a token sequence is such a tree.
\<close>

theorem Simplify_idempotent_nested_group_free:
  "(nested_group_free t \<longrightarrow> Simplify (Simplify t) = Simplify t)
   \<and> (Parse_loop ts Node_default [root_frame] = Inr (Some raw) \<longrightarrow> nested_group_free raw)"
  using simplified_fixed [OF simplified_Simplify, of t] builder_tree_nested_group_free [of ts raw]
  by blast

text \<open>The raw tree that the builder makes of the document \<open>k: a\<close>, \<open>b\<close> of claim C7.\<close>

theorem Simplify_idempotent_nested_group_free_witness:
  "Parse_loop
     [\<lparr>tok_type = Text, tok_text = ''k'', tok_column = 1, tok_line = 1\<rparr>,
      \<lparr>tok_type = Colon, tok_text = [], tok_column = 2, tok_line = 1\<rparr>,
      \<lparr>tok_type = Text, tok_text = ''a'', tok_column = 4, tok_line = 1\<rparr>,
      \<lparr>tok_type = Text, tok_text = ''b'', tok_column = 4, tok_line = 2\<rparr>]
     Node_default [root_frame]
     = Inr (Some (Node NodeNone [] [Node Key ''k'' [Node Group [] [Node Key ''a'' [], Node Key ''b'' []]]]))
   \<and> nested_group_free
     (Node NodeNone [] [Node Key ''k'' [Node Group [] [Node Key ''a'' [], Node Key ''b'' []]]])
   \<and> Simplify (Simplify
        (Node NodeNone [] [Node Key ''k'' [Node Group [] [Node Key ''a'' [], Node Key ''b'' []]]]))
     = Simplify
        (Node NodeNone [] [Node Key ''k'' [Node Group [] [Node Key ''a'' [], Node Key ''b'' []]]])"
proof -
  let ?ts = "[\<lparr>tok_type = Text, tok_text = ''k'', tok_column = 1, tok_line = 1\<rparr>,
      \<lparr>tok_type = Colon, tok_text = [], tok_column = 2, tok_line = 1\<rparr>,
      \<lparr>tok_type = Text, tok_text = ''a'', tok_column = 4, tok_line = 1\<rparr>,
      \<lparr>tok_type = Text, tok_text = ''b'', tok_column = 4, tok_line = 2\<rparr>]"
  let ?raw = "Node NodeNone [] [Node Key ''k'' [Node Group [] [Node Key ''a'' [], Node Key ''b'' []]]]"
  have run: "Parse_loop ?ts Node_default [root_frame] = Inr (Some ?raw)"
    by (simp add: root_frame_def Token_default_def Node_default_def MakeKey_def MakeGroup_def
          added_node_def)
  have free: "nested_group_free ?raw"
    using Simplify_idempotent_nested_group_free [of _ ?ts ?raw, THEN conjunct2] run by blast
  have "Simplify (Simplify ?raw) = Simplify ?raw"
    using Simplify_idempotent_nested_group_free [of ?raw, THEN conjunct1] free by blast
  with run free show ?thesis by (simp only: simp_thms)
qed

text \<open>
  Hence the tree that \<^verbatim>\<open>Parse\<close> returns is a fixed point of \<^verbatim>\<open>Simplify\<close>; the
  \<^verbatim>\<open>SimplifyCopy\<close> at the start of \<^verbatim>\<open>Serialize\<close> leaves it as it is.
\<close>

lemma Parse_result_simplified:
  assumes "Parse data = Inr (Some t)"
  shows "Simplify t = t"
proof -
  have copy: "Simplify INVALID_value = INVALID_value"
    by (simp add: INVALID_value_def Node_default_def collapse_group_def merge_values_def
          retype_key_def)
  from assms consider "t = INVALID_value"
    | ts raw where "Parse_loop ts Node_default [root_frame] = Inr (Some raw)" "t = Simplify raw"
    by (auto simp: Parse_def split: sum.splits option.splits)
  then show ?thesis
  proof cases
    case 1
    then show ?thesis using copy by simp
  next
    case 2
    from 2(1) have "nested_group_free raw" by (intro builder_tree_nested_group_free)
    then have "Simplify (Simplify raw) = Simplify raw"
      by (intro simplified_fixed simplified_Simplify)
    with 2(2) show ?thesis by simp
  qed
qed

section \<open>The tree builder\<close>

lemma seekFn_skip:
  "\<forall>f \<in> set fs. \<not> frame_matches f col flag \<Longrightarrow>
   seekFn (fs @ rest) col flag = seekFn rest col flag"
  by (induction fs) (auto simp: frame_matches_def)

text \<open>
  Claim C5, as stated: the bottom frame satisfies the match of every search that
  reaches it with a column greater than 0, whether a \<^verbatim>\<open>Text\<close> or a \<^verbatim>\<open>Colon\<close> token
  started it.  A search started by a \<^verbatim>\<open>Colon\<close> token looks for the flag \<^verbatim>\<open>Text\<close>,
  which the type \<^verbatim>\<open>None\<close> of the bottom frame does not have: at column 1 on the
  initial stack it pops the bottom frame and returns \<^verbatim>\<open>nullptr\<close>.
\<close>

theorem root_frame_rejects_Colon_search:
  "seekFn [root_frame] 1 (TokenType_bits Text) = ([], None)"
  by (simp add: root_frame_def Token_default_def)

text \<open>
  Claim C5, amended: the bottom frame satisfies the match of the searches that a
  \<^verbatim>\<open>Text\<close> token starts.  Such a search that reaches the bottom frame (no frame
  above it matches) with a column greater than 0 returns the root and leaves the
  bottom frame on the stack.  A search that a \<^verbatim>\<open>Colon\<close> token starts and that reaches
  the bottom frame never matches it: it empties the stack and returns \<^verbatim>\<open>nullptr\<close>.
\<close>

theorem root_frame_matches_Text_search_only:
  "((\<forall>f \<in> set fs. \<not> frame_matches f col (TokenType_bits Colon OR TokenType_bits TokenNone))
      \<and> 0 < col \<longrightarrow>
      seekFn (fs @ [root_frame]) col (TokenType_bits Colon OR TokenType_bits TokenNone)
        = ([root_frame], Some []))
   \<and> ((\<forall>f \<in> set fs. \<not> frame_matches f col (TokenType_bits Text)) \<longrightarrow>
      seekFn (fs @ [root_frame]) col (TokenType_bits Text) = ([], None))"
  by (auto simp: seekFn_skip root_frame_def Token_default_def)

text \<open>
  A text at column 3 and a colon at column 3, each above a frame of a text token at
  column 5 and the bottom frame.
\<close>

theorem root_frame_matches_Text_search_only_witness:
  "seekFn [\<lparr>token = \<lparr>tok_type = Text, tok_text = ''a'', tok_column = 5, tok_line = 1\<rparr>, node = [0]\<rparr>,
           root_frame] 3 (TokenType_bits Colon OR TokenType_bits TokenNone)
     = ([root_frame], Some [])
   \<and> seekFn [\<lparr>token = \<lparr>tok_type = Text, tok_text = ''a'', tok_column = 5, tok_line = 1\<rparr>, node = [0]\<rparr>,
             root_frame] 3 (TokenType_bits Text)
     = ([], None)"
  using root_frame_matches_Text_search_only
          [of "[\<lparr>token = \<lparr>tok_type = Text, tok_text = ''a'', tok_column = 5, tok_line = 1\<rparr>,
                 node = [0]\<rparr>]" 3]
  by (simp add: frame_matches_def)

section \<open>The tokenizer and the parser return\<close>

lemma Trim_scan_start:
  "Trim_scan cs i (s, e, f) = (s', e', f') \<Longrightarrow> s' = s \<or> (i \<le> s' \<and> s' < i + length cs)"
proof (induction cs arbitrary: i s e f)
  case Nil
  then show ?case by simp
next
  case (Cons c cs)
  from Cons.prems have
    "Trim_scan cs (Suc i) (if c \<noteq> sp \<and> \<not> f then i else s, if c \<noteq> sp then i else e,
        if c \<noteq> sp \<and> \<not> f then True else f) = (s', e', f')"
    by simp
  from Cons.IH [OF this] show ?case by (auto split: if_splits)
qed

lemma Trim_dedent_returns: "\<exists>r. Trim_dedent col result p = Inr r"
proof (induction col result p rule: Trim_dedent.induct)
  case (1 col result p)
  show ?case
  proof (cases "p + 1 \<ge> length result")
    case True
    then show ?thesis by (subst Trim_dedent.simps) simp
  next
    case False
    then show ?thesis using 1 [OF refl _ refl refl]
      by (subst Trim_dedent.simps) (auto simp: Let_def erase_def split: option.splits)
  qed
qed

lemma Trim_returns: "\<exists>r. Trim tk col = Inr r"
proof -
  obtain start endi found where
    sc: "Trim_scan tk 0 (0, size_t_sub (length tk) 1, False) = (start, endi, found)"
    by (metis prod_cases3)
  from Trim_scan_start [OF sc] have "start \<le> length tk" by auto
  then obtain result where
    r: "substr tk start (size_t_add (size_t_sub endi start) 1) = Inr result"
    by (simp add: substr_def)
  show ?thesis
  proof (cases "starts_with result dq")
    case False
    then show ?thesis using sc r by (simp add: Trim_def)
  next
    case True
    then have "result \<noteq> []" by (cases result) (simp_all add: starts_with_def)
    then obtain result1 where
      r1: "substr result 1 (size_t_sub (length result) (if ends_with result dq then 2 else 1))
             = Inr result1"
      by (simp add: substr_def)
    show ?thesis
    proof (cases "find_char result1 nl 0")
      case None
      then show ?thesis using sc r True r1 by (simp add: Trim_def)
    next
      case (Some p)
      then show ?thesis using sc r True r1 Trim_dedent_returns [of col result1 p]
        by (auto simp add: Trim_def)
    qed
  qed
qed

lemma Tokenize_track_closed:
  "Tokenize_track pc c s =
     (let isFirst = (\<not> tokenHasContent s \<and> c \<noteq> sp \<and> c \<noteq> nl);
          inQ = (if isFirst \<and> c = dq then True
                 else if inQuotes s \<and> c = dq \<and> \<not> isFirst \<and> pc \<noteq> bs then False
                 else inQuotes s);
          inC = (if \<not> inQ \<and> c = CHR ''#'' then True else inComment s);
          reset = (inC \<and> c = nl)
      in \<lparr>tokens = tokens s,
          partialToken = (if reset then [] else partialToken s),
          charCol = (if c = nl then 0 else charCol s + 1),
          charLine = (if c = nl then charLine s + 1 else charLine s),
          tokenStartCol = (if isFirst then charCol s + 1 else tokenStartCol s),
          tokenStartLine = (if isFirst then charLine s else tokenStartLine s),
          inQuotes = inQ,
          tokenHasContent = (if reset then False else (tokenHasContent s \<or> isFirst)),
          inComment = (if reset then False else inC)\<rparr>)"
  by (cases "c = nl"; cases "c = sp"; cases "c = dq"; cases "c = CHR ''#''"; cases "pc = bs";
      cases "tokenHasContent s"; cases "inQuotes s"; cases "inComment s";
      simp add: Tokenize_track_def Let_def)

lemma tokens_Tokenize_track [simp]: "tokens (Tokenize_track pc c s) = tokens s"
  by (simp add: Tokenize_track_closed Let_def)

lemma Tokenize_emit_returns:
  assumes "typed_tokens (tokens s)"
  shows "\<exists>s'. Tokenize_emit c nc s = Inr s' \<and> typed_tokens (tokens s')"
proof -
  obtain t where t: "\<And>x y. Trim x y = Inr (t x y)" 
    using Trim_returns by metis
  show ?thesis using assms
    by (simp add: Tokenize_emit_def Let_def t typed_tokens_def)
qed

lemma Tokenize_step_returns:
  assumes "typed_tokens (tokens s)"
  shows "\<exists>s'. Tokenize_step pc c nc s = Inr s' \<and> typed_tokens (tokens s')"
  unfolding Tokenize_step_def using assms by (intro Tokenize_emit_returns) simp

lemma Tokenize_loop_returns:
  "typed_tokens (tokens s) \<Longrightarrow>
   \<exists>s'. Tokenize_loop data i n s = Inr s' \<and> typed_tokens (tokens s')"
proof (induction data i n s rule: Tokenize_loop.induct)
  case (1 data i n s)
  show ?case
  proof (cases "i < n")
    case False
    then show ?thesis using "1.prems" by (subst Tokenize_loop.simps) simp
  next
    case True
    obtain s1 where
      s1: "Tokenize_step (prev_char data i) (data ! i) (next_char data i) s = Inr s1"
      and t1: "typed_tokens (tokens s1)"
      using Tokenize_step_returns [OF "1.prems"] by blast
    from "1.IH" [OF True s1 t1] show ?thesis
      using True s1 by (subst Tokenize_loop.simps) simp
  qed
qed

lemma Tokenize_returns: "\<exists>ts. Tokenize data = Inr ts \<and> typed_tokens ts"
proof -
  have "typed_tokens (tokens tokenizer_init)" by (simp add: typed_tokens_def tokenizer_init_def)
  from Tokenize_loop_returns [OF this, of data 0 "length data"]
  show ?thesis by (auto simp: Tokenize_def)
qed

lemma Parse_loop_returns:
  "typed_tokens ts \<Longrightarrow> \<exists>r. Parse_loop ts root stack = Inr r"
proof (induction ts arbitrary: root stack)
  case Nil
  show ?case by simp
next
  case (Cons tk ts)
  then have ty: "tok_type tk = Text \<or> tok_type tk = Colon" and rest: "typed_tokens ts"
    by (simp_all add: typed_tokens_def)
  show ?case using ty Cons.IH [OF rest]
    by (auto split: prod.splits option.splits)
qed

lemma Parse_returns: "\<exists>t. Parse data = Inr (Some t)"
proof -
  obtain ts where ts: "Tokenize data = Inr ts" and ty: "typed_tokens ts"
    using Tokenize_returns by blast
  obtain r where "Parse_loop ts Node_default [root_frame] = Inr r"
    using Parse_loop_returns [OF ty] by blast
  then show ?thesis using ts by (cases r) (simp_all add: Parse_def)
qed

text \<open>
  Hence \<^verbatim>\<open>IsInvalid()\<close> is false on the node that \<^verbatim>\<open>Parse\<close> returns, whatever the
  input.
\<close>

lemma Parse_result_not_INVALID: "Parse data = Inr r \<Longrightarrow> \<not> IsInvalid r"
  using Parse_returns [of data] by (auto simp: IsInvalid_def)

text \<open>
  A colon as the first token finds only the root frame on the stack, whose token has
  the type \<^verbatim>\<open>None\<close>: the search for a text frame empties the stack and the loop is
  left at \<^verbatim>\<open>return Node::INVALID\<close>.
\<close>

lemma leading_colon_copy_of_INVALID:
  assumes "Tokenize data = Inr (t # ts)" "tok_type t = Colon"
  shows "Parse data = Inr (Some INVALID_value)"
  using assms by (simp add: Parse_def root_frame_def Token_default_def)

text \<open>
  Claim C2.  The claim has two parts.  \<^verbatim>\<open>Parse\<close> does return on every input (lemma
  \<open>Parse_returns\<close>: no \<^verbatim>\<open>std::out_of_range\<close> leaves the tokenizer and the
  \<^verbatim>\<open>assert\<close> of the loop holds).  But a malformed document does not give the caller
  the sentinel.  The documents \<open>: x\<close> (a colon as the first token) and \<open>a: b\<close>,
  newline, \<open>: c\<close> (a colon on the second line, left of every text token) both leave
  the loop at \<^verbatim>\<open>return Node::INVALID\<close>.  The function returns by value, so the caller
  holds a copy: \<^verbatim>\<open>IsInvalid()\<close>, the test of identity, is false on it, and it equals
  field by field what \<^verbatim>\<open>Parse\<close> returns for the empty document.
\<close>

theorem Parse_malformed_returns_copy_of_INVALID:
  "Tokenize '': x''
     = Inr [\<lparr>tok_type = Colon, tok_text = [], tok_column = 1, tok_line = 1\<rparr>,
            \<lparr>tok_type = Text, tok_text = ''x'', tok_column = 3, tok_line = 1\<rparr>]
   \<and> Parse_loop [\<lparr>tok_type = Colon, tok_text = [], tok_column = 1, tok_line = 1\<rparr>,
                  \<lparr>tok_type = Text, tok_text = ''x'', tok_column = 3, tok_line = 1\<rparr>]
        Node_default [root_frame] = Inr None
   \<and> Parse '': x'' = Inr (Some INVALID_value)
   \<and> \<not> IsInvalid (Some INVALID_value)
   \<and> Parse [] = Inr (Some (Node NodeNone [] []))
   \<and> Parse '': x'' = Parse []
   \<and> Tokenize (''a: b'' @ [nl] @ '': c'')
     = Inr [\<lparr>tok_type = Text, tok_text = ''a'', tok_column = 1, tok_line = 1\<rparr>,
            \<lparr>tok_type = Colon, tok_text = [], tok_column = 2, tok_line = 1\<rparr>,
            \<lparr>tok_type = Text, tok_text = ''b'', tok_column = 4, tok_line = 1\<rparr>,
            \<lparr>tok_type = Colon, tok_text = [], tok_column = 1, tok_line = 2\<rparr>,
            \<lparr>tok_type = Text, tok_text = ''c'', tok_column = 3, tok_line = 2\<rparr>]
   \<and> Parse (''a: b'' @ [nl] @ '': c'') = Inr (Some INVALID_value)
   \<and> Parse (''a: b'' @ [nl] @ '': c'') = Parse []"
proof -
  have toks: "Tokenize '': x''
     = Inr [\<lparr>tok_type = Colon, tok_text = [], tok_column = 1, tok_line = 1\<rparr>,
            \<lparr>tok_type = Text, tok_text = ''x'', tok_column = 3, tok_line = 1\<rparr>]"
    by (simp add: Tokenize_def Tokenize_loop.simps Tokenize_step_def Tokenize_track_def
          Tokenize_emit_def tokenizer_init_def
          prev_char_def next_char_def isDelimiter_def Trim_def size_t_sub_def size_t_add_def
          substr_def starts_with_def)
  have toks2: "Tokenize (''a: b'' @ [nl] @ '': c'')
     = Inr [\<lparr>tok_type = Text, tok_text = ''a'', tok_column = 1, tok_line = 1\<rparr>,
            \<lparr>tok_type = Colon, tok_text = [], tok_column = 2, tok_line = 1\<rparr>,
            \<lparr>tok_type = Text, tok_text = ''b'', tok_column = 4, tok_line = 1\<rparr>,
            \<lparr>tok_type = Colon, tok_text = [], tok_column = 1, tok_line = 2\<rparr>,
            \<lparr>tok_type = Text, tok_text = ''c'', tok_column = 3, tok_line = 2\<rparr>]"
    by (simp add: Tokenize_def Tokenize_loop.simps Tokenize_step_def Tokenize_track_def
          Tokenize_emit_def tokenizer_init_def
          prev_char_def next_char_def isDelimiter_def Trim_def size_t_sub_def size_t_add_def
          substr_def starts_with_def Trim_scan.simps)
  have loop: "Parse_loop [\<lparr>tok_type = Colon, tok_text = [], tok_column = 1, tok_line = 1\<rparr>,
                  \<lparr>tok_type = Text, tok_text = ''x'', tok_column = 3, tok_line = 1\<rparr>]
        Node_default [root_frame] = Inr None"
    by (simp add: root_frame_def Token_default_def)
  have loop2: "Parse_loop
       [\<lparr>tok_type = Text, tok_text = ''a'', tok_column = 1, tok_line = 1\<rparr>,
        \<lparr>tok_type = Colon, tok_text = [], tok_column = 2, tok_line = 1\<rparr>,
        \<lparr>tok_type = Text, tok_text = ''b'', tok_column = 4, tok_line = 1\<rparr>,
        \<lparr>tok_type = Colon, tok_text = [], tok_column = 1, tok_line = 2\<rparr>,
        \<lparr>tok_type = Text, tok_text = ''c'', tok_column = 3, tok_line = 2\<rparr>]
       Node_default [root_frame] = Inr None"
    by (simp add: root_frame_def Token_default_def Node_default_def MakeKey_def MakeGroup_def
          added_node_def)
  have p1: "Parse '': x'' = Inr (Some INVALID_value)"
    unfolding Parse_def toks by (simp only: sum.case loop option.case)
  have p2: "Parse (''a: b'' @ [nl] @ '': c'') = Inr (Some INVALID_value)"
    unfolding Parse_def toks2 by (simp only: sum.case loop2 option.case)
  have p0: "Parse [] = Inr (Some (Node NodeNone [] []))"
    by (simp add: Parse_def Tokenize_def Tokenize_loop.simps tokenizer_init_def
          Node_default_def collapse_group_def merge_values_def retype_key_def)
  have inv: "INVALID_value = Node NodeNone [] []"
    by (simp add: INVALID_value_def Node_default_def)
  have id: "\<not> IsInvalid (Some INVALID_value)" by (simp add: IsInvalid_def)
  show ?thesis
    unfolding toks toks2 loop p1 p2 p0 inv using id by (simp only: simp_thms inv)
qed

section \<open>Inputs without tokens\<close>

lemma Trim_eq: "Trim tk col = Inr (Trim_result tk col)"
  using Trim_returns [of tk col] by (auto simp: Trim_result_def)

lemma Tokenize_emit_eq: "Tokenize_emit c nc s = Inr (emit c nc s)"
  by (simp add: Tokenize_emit_def emit_def Let_def Trim_eq)

lemma Tokenize_step_eq: "Tokenize_step pc c nc s = Inr (step (pc, c, nc) s)"
  by (simp add: Tokenize_step_def step_def Tokenize_emit_eq)

lemma Tokenize_loop_fold:
  "Tokenize_loop data i n s = Inr (fold (\<lambda>k. step (window data k)) [i..<n] s)"
proof (induction data i n s rule: Tokenize_loop.induct)
  case (1 data i n s)
  show ?case
  proof (cases "i < n")
    case False
    then show ?thesis by (subst Tokenize_loop.simps) simp
  next
    case True
    have "Tokenize_loop data i n s
          = Tokenize_loop data (Suc i) n (step (window data i) s)"
      using True by (subst Tokenize_loop.simps) (simp add: Tokenize_step_eq window_def)
    also have "\<dots> = Inr (fold (\<lambda>k. step (window data k)) [Suc i..<n] (step (window data i) s))"
      using True by (intro "1.IH") (simp_all add: Tokenize_step_eq window_def)
    finally show ?thesis using True by (simp add: upt_conv_Cons)
  qed
qed

lemma Tokenize_fold:
  "Tokenize data = Inr (tokens (fold (\<lambda>k. step (window data k)) [0..<length data] tokenizer_init))"
  by (simp add: Tokenize_def Tokenize_loop_fold)

lemma fold_windows:
  "fold (\<lambda>k. step (window data k)) ks s = fold step (map (window data) ks) s"
  by (simp add: fold_map comp_def)

lemma step_idle:
  assumes "idle inC s" "only_comments inC (c # cs)"
  shows "tokens (step (pc, c, nc) s) = tokens s
         \<and> idle (if inC then c \<noteq> nl else c = CHR ''#'') (step (pc, c, nc) s)"
  using assms
  by (cases inC; cases "c = CHR ''#''"; cases "c = nl")
     (auto simp: idle_def step_def emit_def Tokenize_track_closed Let_def isDelimiter_def)

lemma fold_step_only_comments:
  "idle inC s \<Longrightarrow> only_comments inC (map (\<lambda>w. fst (snd w)) ws) \<Longrightarrow>
   tokens (fold step ws s) = tokens s"
proof (induction ws arbitrary: inC s)
  case Nil
  show ?case by simp
next
  case (Cons w ws)
  obtain pc c nc where w: "w = (pc, c, nc)" by (cases w)
  have oc: "only_comments inC (c # map (\<lambda>w. fst (snd w)) ws)" using Cons.prems(2) w by simp
  from step_idle [OF Cons.prems(1) oc] have
    t: "tokens (step (pc, c, nc) s) = tokens s" and
    i: "idle (if inC then c \<noteq> nl else c = CHR ''#'') (step (pc, c, nc) s)"
    by blast+
  have rest: "only_comments (if inC then c \<noteq> nl else c = CHR ''#'') (map (\<lambda>w. fst (snd w)) ws)"
    using oc by (auto split: if_splits)
  from Cons.IH [OF i rest] t show ?case using w by simp
qed

lemma map_mid_window: "map (\<lambda>w. fst (snd w)) (map (window data) [0..<length data]) = data"
  by (simp add: window_def comp_def map_nth)

lemma Tokenize_only_comments: "only_comments False data \<Longrightarrow> Tokenize data = Inr []"
proof -
  assume oc: "only_comments False data"
  have i: "idle False tokenizer_init" by (simp add: idle_def tokenizer_init_def)
  have "tokens (fold step (map (window data) [0..<length data]) tokenizer_init)
        = tokens tokenizer_init"
    by (intro fold_step_only_comments [OF i]) (simp only: map_mid_window oc)
  then show ?thesis by (simp add: Tokenize_fold fold_windows tokenizer_init_def)
qed

lemma Parse_no_tokens: "Tokenize data = Inr [] \<Longrightarrow> Parse data = Inr (Some (Node NodeNone [] []))"
  by (simp add: Parse_def Node_default_def collapse_group_def merge_values_def retype_key_def)

text \<open>
  Claim C9.  An input that yields no tokens parses to a root of type \<^verbatim>\<open>None\<close>
  without children: the body of the loop never runs, \<^verbatim>\<open>return root\<close> is reached, and
  the node that the caller holds is an object of its own, not \<^verbatim>\<open>Node::INVALID\<close>.
  The empty string and every input that consists of spaces, newlines and comments
  yield no tokens.
\<close>

theorem Parse_without_tokens:
  "(Tokenize data = Inr [] \<longrightarrow> Parse data = Inr (Some (Node NodeNone [] [])))
   \<and> (only_comments False data \<longrightarrow> Tokenize data = Inr [])"
  using Parse_no_tokens [of data] Tokenize_only_comments [of data] by blast

text \<open>The empty string, and two lines of blanks around a comment line.\<close>

theorem Parse_without_tokens_witness:
  "Parse [] = Inr (Some (Node NodeNone [] []))
   \<and> only_comments False (''  '' @ [nl] @ '' # a: b'' @ [nl] @ '' '')
   \<and> Parse (''  '' @ [nl] @ '' # a: b'' @ [nl] @ '' '') = Inr (Some (Node NodeNone [] []))"
  using Parse_without_tokens [of "[]"]
        Parse_without_tokens [of "''  '' @ [nl] @ '' # a: b'' @ [nl] @ '' ''"]
  by simp


section \<open>Comments\<close>

lemma step_hash:
  assumes "\<not> inQuotes s"
  shows "tokens (step (pc, CHR ''#'', nc) s) = tokens s \<and> idle True (step (pc, CHR ''#'', nc) s)"
  using assms
  by (auto simp: idle_def step_def emit_def Tokenize_track_closed Let_def isDelimiter_def)

lemma step_in_comment:
  assumes "idle True s" "c \<noteq> nl"
  shows "tokens (step (pc, c, nc) s) = tokens s \<and> idle True (step (pc, c, nc) s)"
  using step_idle [of True s c "[]" pc nc] assms by simp

lemma step_comment_end:
  assumes "idle True s"
  shows "tokens (step (pc, nl, nc) s) = tokens s \<and> idle False (step (pc, nl, nc) s)
         \<and> partialToken (step (pc, nl, nc) s) = []"
  using assms
  by (auto simp: idle_def step_def emit_def Tokenize_track_closed Let_def isDelimiter_def)

lemma fold_step_in_comment:
  "idle True s \<Longrightarrow> \<forall>k \<in> set ks. data ! k \<noteq> nl \<Longrightarrow>
   tokens (fold (\<lambda>k. step (window data k)) ks s) = tokens s
   \<and> idle True (fold (\<lambda>k. step (window data k)) ks s)"
proof (induction ks arbitrary: s)
  case Nil
  then show ?case by simp
next
  case (Cons k ks)
  have "data ! k \<noteq> nl" using Cons.prems(2) by simp
  from step_in_comment [OF Cons.prems(1) this, of "prev_char data k" "next_char data k"]
  have t: "tokens (step (window data k) s) = tokens s"
    and i: "idle True (step (window data k) s)"
    by (simp_all add: window_def)
  from Cons.IH [OF i] Cons.prems(2) t show ?case by simp
qed

lemma comment_discarded:
  assumes s: "Tokenize_loop data 0 i tokenizer_init = Inr s"
    and q: "\<not> inQuotes s"
    and ij: "i < j" and j: "j < length data"
    and hash: "data ! i = CHR ''#''" and newline: "data ! j = nl"
    and between: "\<forall>k. i < k \<and> k < j \<longrightarrow> data ! k \<noteq> nl"
  shows "\<exists>s'. Tokenize_loop data 0 (Suc j) tokenizer_init = Inr s'
              \<and> tokens s' = tokens s \<and> partialToken s' = []
              \<and> \<not> tokenHasContent s' \<and> \<not> inQuotes s' \<and> \<not> inComment s'"
proof -
  let ?f = "\<lambda>k. step (window data k)"
  have s_def: "s = fold ?f [0..<i] tokenizer_init"
    using s by (simp add: Tokenize_loop_fold)
  have "[0..<j] = [0..<i] @ [i..<j]"
    using ij upt_add_eq_append [of 0 i "j - i"] by simp
  moreover have "[i..<j] = i # [Suc i..<j]" using ij by (simp add: upt_conv_Cons)
  ultimately have split: "[0..<Suc j] = [0..<i] @ i # [Suc i..<j] @ [j]" by simp
  define s1 where "s1 = ?f i s"
  define s2 where "s2 = fold ?f [Suc i..<j] s1"
  define s3 where "s3 = ?f j s2"
  have run: "fold ?f [0..<Suc j] tokenizer_init = s3"
    unfolding split s3_def s2_def s1_def s_def by simp
  have 1: "tokens s1 = tokens s \<and> idle True s1"
    unfolding s1_def window_def hash using step_hash [OF q] by simp
  have "\<forall>k \<in> set [Suc i..<j]. data ! k \<noteq> nl" using between by simp
  from fold_step_in_comment [OF conjunct2 [OF 1] this]
  have 2: "tokens s2 = tokens s1 \<and> idle True s2" by (simp add: s2_def)
  from step_comment_end [OF conjunct2 [OF 2], of "prev_char data j" "next_char data j"]
  have 3: "tokens s3 = tokens s2 \<and> idle False s3 \<and> partialToken s3 = []"
    by (simp add: s3_def window_def newline)
  have "Tokenize_loop data 0 (Suc j) tokenizer_init = Inr s3"
    by (simp only: Tokenize_loop_fold run)
  with 1 2 3 show ?thesis by (auto simp: idle_def)
qed



lemma content_before_hash_emitted:
  assumes s: "Tokenize_loop data 0 i tokenizer_init = Inr s"
    and i: "Suc i < length data" and hash: "data ! Suc i = CHR ''#''"
    and q: "\<not> inQuotes s" and c: "\<not> inComment s"
    and content: "tokenHasContent s \<or> (data ! i \<noteq> sp \<and> data ! i \<noteq> dq)"
    and nd: "\<not> isDelimiter (data ! i)"
  shows "\<exists>s' t. Tokenize_loop data 0 (Suc i) tokenizer_init = Inr s'
              \<and> Trim (partialToken s @ [data ! i]) (unat (tokenStartCol s')) = Inr t
              \<and> tokens s' = tokens s @
                   [\<lparr>tok_type = Text, tok_text = t,
                     tok_column = tokenStartCol s', tok_line = tokenStartLine s'\<rparr>]"
proof -
  let ?f = "\<lambda>k. step (window data k)"
  have s_def: "s = fold ?f [0..<i] tokenizer_init"
    using s by (simp add: Tokenize_loop_fold)
  have run: "Tokenize_loop data 0 (Suc i) tokenizer_init = Inr (?f i s)"
    by (simp add: Tokenize_loop_fold s_def)
  have nc: "next_char data i = CHR ''#''" using i hash by (simp add: next_char_def)
  have nnl: "data ! i \<noteq> nl" "data ! i \<noteq> CHR ''#''" using nd by (auto simp: isDelimiter_def)
  define t where "t = Tokenize_track (prev_char data i) (data ! i) s"
  have tq: "\<not> inQuotes t"
    using q content by (auto simp: t_def Tokenize_track_closed Let_def)
  have tc: "\<not> inComment t"
    using c tq nnl by (auto simp: t_def Tokenize_track_closed Let_def)
  have th: "tokenHasContent t"
    using c nnl content by (auto simp: t_def Tokenize_track_closed Let_def)
  have tp: "partialToken t = partialToken s"
    using c nnl by (auto simp: t_def Tokenize_track_closed Let_def)
  have tt: "tokens t = tokens s" by (simp add: t_def)
  have f: "?f i s = emit (data ! i) (CHR ''#'') t"
    by (simp add: step_def window_def nc t_def)
  have e: "emit (data ! i) (CHR ''#'') t
           = t\<lparr>tokens := tokens t @
                    [\<lparr>tok_type = Text,
                      tok_text = Trim_result (partialToken t @ [data ! i]) (unat (tokenStartCol t)),
                      tok_column = tokenStartCol t, tok_line = tokenStartLine t\<rparr>],
                 partialToken := [], tokenHasContent := False\<rparr>"
    using tq tc th nd by (simp add: emit_def isDelimiter_def)
  have "tokens (?f i s) = tokens s @
          [\<lparr>tok_type = Text,
            tok_text = Trim_result (partialToken s @ [data ! i]) (unat (tokenStartCol (?f i s))),
            tok_column = tokenStartCol (?f i s), tok_line = tokenStartLine (?f i s)\<rparr>]"
    unfolding f e by (simp add: tp tt)
  with run show ?thesis by (auto simp: Trim_eq)
qed

text \<open>
  Claim C4, as stated: the content accumulated before an unquoted \<open>#\<close> is discarded
  and no \<^verbatim>\<open>Text\<close> token is emitted for it.  In the line \<open>ab #c\<close> the text \<open>ab\<close>
  before the comment is emitted as a token.
\<close>

theorem Text_before_comment_is_emitted:
  "Tokenize (''ab #c'' @ [nl])
     = Inr [\<lparr>tok_type = Text, tok_text = ''ab'', tok_column = 1, tok_line = 1\<rparr>]"
  by (simp add: Tokenize_def Tokenize_loop.simps Tokenize_step_def Tokenize_track_def
        Tokenize_emit_def tokenizer_init_def prev_char_def next_char_def isDelimiter_def
        Trim_def size_t_sub_def size_t_add_def substr_def starts_with_def)

text \<open>
  Claim C4, amended.  Let \<open>s\<close> be the state in which the loop reaches a position.

  When the position holds an unquoted \<open>#\<close> (\<open>s\<close> is not inside quotes) and \<open>j\<close> is
  the position of the next newline, the iterations from the \<open>#\<close> up to and including
  that newline emit no token, and they leave the partial token empty and the tokenizer
  outside any token, quote or comment.

  The unquoted content before a \<open>#\<close> is not discarded: when the next position holds a
  \<open>#\<close>, the tokenizer is in no quote and no comment, the character at the position is
  not a delimiter and a token has content (it has begun earlier, or it begins with this
  character, which is then neither a space nor a double quote), the iteration at the
  position emits the \<^verbatim>\<open>Text\<close> token whose text is what \<^verbatim>\<open>Trim\<close> makes of the
  partial token extended by the character.
\<close>

theorem comment_discarded_content_before_emitted:
  "(Tokenize_loop data 0 i tokenizer_init = Inr s \<and> \<not> inQuotes s
      \<and> i < j \<and> j < length data \<and> data ! i = CHR ''#'' \<and> data ! j = nl
      \<and> (\<forall>k. i < k \<and> k < j \<longrightarrow> data ! k \<noteq> nl) \<longrightarrow>
      (\<exists>s'. Tokenize_loop data 0 (Suc j) tokenizer_init = Inr s'
            \<and> tokens s' = tokens s \<and> partialToken s' = []
            \<and> \<not> tokenHasContent s' \<and> \<not> inQuotes s' \<and> \<not> inComment s'))
   \<and> (Tokenize_loop data 0 m tokenizer_init = Inr r \<and> Suc m < length data
        \<and> data ! Suc m = CHR ''#'' \<and> \<not> inQuotes r \<and> \<not> inComment r
        \<and> (tokenHasContent r \<or> (data ! m \<noteq> sp \<and> data ! m \<noteq> dq))
        \<and> \<not> isDelimiter (data ! m) \<longrightarrow>
      (\<exists>r' t. Tokenize_loop data 0 (Suc m) tokenizer_init = Inr r'
            \<and> Trim (partialToken r @ [data ! m]) (unat (tokenStartCol r')) = Inr t
            \<and> tokens r' = tokens r @
                 [\<lparr>tok_type = Text, tok_text = t,
                   tok_column = tokenStartCol r', tok_line = tokenStartLine r'\<rparr>]))"
  using comment_discarded [of data i s j] content_before_hash_emitted [of data m r]
  by blast

text \<open>
  The line \<open>ab #c\<close> and a second line \<open>d\<close>.  After the first two characters the
  partial token is \<open>ab\<close>; the iteration at the space before the \<open>#\<close> emits it; the
  iterations from the \<open>#\<close> to the end of the line emit nothing.
\<close>

theorem comment_discarded_content_before_emitted_witness:
  "(\<exists>r'. Tokenize_loop (''ab #c'' @ [nl] @ ''d'') 0 3 tokenizer_init = Inr r'
        \<and> tokens r' = [\<lparr>tok_type = Text, tok_text = ''ab'', tok_column = 1, tok_line = 1\<rparr>])
   \<and> (\<exists>s'. Tokenize_loop (''ab #c'' @ [nl] @ ''d'') 0 6 tokenizer_init = Inr s'
        \<and> tokens s' = [\<lparr>tok_type = Text, tok_text = ''ab'', tok_column = 1, tok_line = 1\<rparr>]
        \<and> partialToken s' = [] \<and> \<not> tokenHasContent s' \<and> \<not> inQuotes s' \<and> \<not> inComment s')"
proof -
  let ?data = "''ab #c'' @ [nl] @ ''d''"
  let ?r = "\<lparr>tokens = [], partialToken = ''ab'', charCol = 2, charLine = 1,
             tokenStartCol = 1, tokenStartLine = 1,
             inQuotes = False, tokenHasContent = True, inComment = False\<rparr>"
  let ?s = "\<lparr>tokens = [\<lparr>tok_type = Text, tok_text = ''ab'', tok_column = 1, tok_line = 1\<rparr>],
             partialToken = [], charCol = 3, charLine = 1,
             tokenStartCol = 1, tokenStartLine = 1,
             inQuotes = False, tokenHasContent = False, inComment = False\<rparr>"
  have r: "Tokenize_loop ?data 0 2 tokenizer_init = Inr ?r"
    by (simp add: Tokenize_loop.simps Tokenize_step_def Tokenize_track_def
          Tokenize_emit_def tokenizer_init_def prev_char_def next_char_def isDelimiter_def)
  have s: "Tokenize_loop ?data 0 3 tokenizer_init = Inr ?s"
    by (simp add: Tokenize_loop.simps Tokenize_step_def Tokenize_track_def
          Tokenize_emit_def tokenizer_init_def prev_char_def next_char_def isDelimiter_def
          Trim_def size_t_sub_def size_t_add_def substr_def starts_with_def)
  have t: "Trim ''ab '' 1 = Inr ''ab''"
    by (simp add: Trim_def size_t_sub_def size_t_add_def substr_def starts_with_def)
  have before: "\<exists>r' t. Tokenize_loop ?data 0 (Suc 2) tokenizer_init = Inr r'
            \<and> Trim (partialToken ?r @ [?data ! 2]) (unat (tokenStartCol r')) = Inr t
            \<and> tokens r' = tokens ?r @
                 [\<lparr>tok_type = Text, tok_text = t,
                   tok_column = tokenStartCol r', tok_line = tokenStartLine r'\<rparr>]"
    using comment_discarded_content_before_emitted
            [where data = ?data and m = 2 and r = ?r, THEN conjunct2] r
    by (simp add: isDelimiter_def)
  have comment: "\<exists>s'. Tokenize_loop ?data 0 (Suc 5) tokenizer_init = Inr s'
            \<and> tokens s' = tokens ?s \<and> partialToken s' = []
            \<and> \<not> tokenHasContent s' \<and> \<not> inQuotes s' \<and> \<not> inComment s'"
    using comment_discarded_content_before_emitted
            [where data = ?data and i = 3 and j = 5 and s = ?s, THEN conjunct1] s
    by (simp add: nth_Cons' less_Suc_eq)
  from before s have "\<exists>r'. Tokenize_loop ?data 0 3 tokenizer_init = Inr r'
        \<and> tokens r' = [\<lparr>tok_type = Text, tok_text = ''ab'', tok_column = 1, tok_line = 1\<rparr>]"
    by simp
  moreover from comment have "\<exists>s'. Tokenize_loop ?data 0 6 tokenizer_init = Inr s'
        \<and> tokens s' = [\<lparr>tok_type = Text, tok_text = ''ab'', tok_column = 1, tok_line = 1\<rparr>]
        \<and> partialToken s' = [] \<and> \<not> tokenHasContent s' \<and> \<not> inQuotes s' \<and> \<not> inComment s'"
    by simp
  ultimately show ?thesis by blast
qed

section \<open>Quoting in the serializer\<close>

lemma add_spaces_fn_replicate: "add_spaces_fn s n = s @ replicate (unat n) sp"
proof (induction s n rule: add_spaces_fn.induct)
  case (1 s count)
  show ?case
  proof (cases "count > 0")
    case True
    then have ne: "count \<noteq> 0" by auto
    then have "unat count = Suc (unat (count - 1))"
      by (simp add: unat_minus_one unat_gt_0)
    then show ?thesis using 1 True
      by (subst add_spaces_fn.simps) (simp add: replicate_app_Cons_same)
  next
    case False
    then have "count = 0" by (auto simp: word_gt_0)
    then show ?thesis by (subst add_spaces_fn.simps) simp
  qed
qed

lemma sanitize_loop_concat:
  "sanitize_loop s col out = out @ concat (map (escape_char col) s)"
  by (induction s arbitrary: out) (simp_all add: escape_char_def add_spaces_fn_replicate)

lemma find_char_None_iff: "find_char s c 0 = None \<longleftrightarrow> c \<notin> set s"
  by (simp add: find_char_def)

lemma sanitize_string_closed:
  "sanitize_string s col =
     (if needs_quotes s then [dq] @ concat (map (escape_char col) s) @ [dq] else s)"
  by (simp add: sanitize_string_def needs_quotes_def find_char_None_iff sanitize_loop_concat)

lemma Trim_scan_append:
  "Trim_scan (xs @ ys) i st = Trim_scan ys (i + length xs) (Trim_scan xs i st)"
proof (induction xs arbitrary: i st)
  case Nil
  show ?case by (cases st) simp
next
  case (Cons x xs)
  obtain s e f where st: "st = (s, e, f)" by (cases st)
  show ?case unfolding st by (simp add: Cons.IH)
qed

lemma Trim_scan_found:
  "\<exists>e'. Trim_scan cs i (s, e, True) = (s, e', True)"
  by (induction cs arbitrary: i e) auto

lemma Trim_scan_ends_nonspace:
  assumes "c0 \<noteq> sp" "cl \<noteq> sp"
  shows "Trim_scan (c0 # mid @ [cl]) 0 (0, e0, False) = (0, Suc (length mid), True)"
proof -
  obtain e1 where e1: "Trim_scan mid (Suc 0) (0, 0, True) = (0, e1, True)"
    using Trim_scan_found by blast
  have "Trim_scan (c0 # mid @ [cl]) 0 (0, e0, False)
        = Trim_scan (mid @ [cl]) (Suc 0) (0, 0, True)"
    using assms by simp
  also have "\<dots> = Trim_scan [cl] (Suc 0 + length mid) (0, e1, True)"
    by (simp add: Trim_scan_append e1)
  also have "\<dots> = (0, Suc (length mid), True)" using assms by simp
  finally show ?thesis .
qed

lemma Trim_scan_single:
  assumes "c0 \<noteq> sp"
  shows "Trim_scan [c0] 0 (0, e0, False) = (0, 0, True)"
  using assms by simp

lemma Trim_scan_trimmed:
  assumes "tk \<noteq> []" "hd tk \<noteq> sp" "last tk \<noteq> sp"
  shows "Trim_scan tk 0 (0, e0, False) = (0, length tk - 1, True)"
proof (cases "length tk = 1")
  case True
  then obtain c0 where "tk = [c0]" by (cases tk) auto
  then show ?thesis using assms by simp
next
  case False
  then obtain c0 mid cl where tk: "tk = c0 # mid @ [cl]"
    using assms(1)
    by (metis append_butlast_last_id length_Cons list.exhaust list.size(3) One_nat_def)
  with assms have "c0 \<noteq> sp" "cl \<noteq> sp" by simp_all
  from Trim_scan_ends_nonspace [OF this] show ?thesis by (simp add: tk)
qed

lemma substr_whole:
  assumes "tk \<noteq> []" "length tk < 2 ^ 64"
  shows "substr tk 0 (size_t_add (size_t_sub (length tk - 1) 0) 1) = Inr tk"
proof -
  have "size_t_add (size_t_sub (length tk - 1) 0) 1 = length tk"
    using assms by (cases tk) (simp_all add: size_t_add_def size_t_sub_def)
  then show ?thesis by (simp add: substr_def)
qed


lemma takeWhile_neq_until:
  "c \<notin> set l \<Longrightarrow> takeWhile (\<lambda>x. x \<noteq> c) (l @ c # R) = l"
  by (induction l) auto

lemma find_char_at:
  assumes "c \<notin> set l"
  shows "find_char (P @ l @ c # R) c (length P) = Some (length P + length l)"
  using assms by (simp add: find_char_def takeWhile_neq_until)

lemma find_char_absent:
  assumes "c \<notin> set l"
  shows "find_char (P @ l) c (length P) = None"
  using assms by (simp add: find_char_def)

lemma escape_plain:
  assumes "dq \<notin> set l" "nl \<notin> set l"
  shows "concat (map (escape_char col) l) = l"
  using assms by (induction l) (auto simp: escape_char_def)

lemma split_at_newline:
  assumes "nl \<in> set s"
  obtains l r where "s = l @ nl # r" "nl \<notin> set l"
  using assms by (meson split_list_first)

lemma erase_pad:
  "erase (A @ c # replicate n sp @ Y) (Suc (length A)) n = Inr (A @ c # Y)"
  by (simp add: erase_def)

lemma dedent_len:
  "min n (case find_char (A @ nl # replicate n sp @ Y) nl (Suc (length A)) of
            None \<Rightarrow> length (A @ nl # replicate n sp @ Y) - Suc (length A)
          | Some nx \<Rightarrow> nx - Suc (length A)) = n"
proof (cases "find_char (A @ nl # replicate n sp @ Y) nl (Suc (length A))")
  case None
  then show ?thesis by simp
next
  case (Some nx)
  have d: "drop (Suc (length A)) (A @ nl # replicate n sp @ Y) = replicate n sp @ Y" by simp
  have "nx = Suc (length A) + length (takeWhile (\<lambda>x. x \<noteq> nl) (replicate n sp @ Y))"
    using Some unfolding find_char_def d by (simp split: if_splits)
  moreover have "takeWhile (\<lambda>x. x \<noteq> nl) (replicate n sp @ Y)
                 = replicate n sp @ takeWhile (\<lambda>x. x \<noteq> nl) Y"
    by (induction n) simp_all
  ultimately show ?thesis using Some by simp
qed

lemma Trim_dedent_escape:
  assumes "dq \<notin> set r"
  shows "Trim_dedent (unat col) (A @ nl # replicate (unat col) sp @ concat (map (escape_char col) r))
           (length A) = Inr (A @ nl # r)"
  using assms
proof (induction "length r" arbitrary: r A rule: less_induct)
  case less
  let ?n = "unat col"
  let ?E = "\<lambda>s. concat (map (escape_char col) s)"
  let ?res = "A @ nl # replicate ?n sp @ ?E r"
  show ?case
  proof (cases "length A + 1 \<ge> length ?res")
    case True
    then have "replicate ?n sp @ ?E r = []" by simp
    then have "?E r = []" by simp
    then have "r = []" by (cases r) (simp_all add: escape_char_def split: if_splits)
    then show ?thesis using True by (subst Trim_dedent.simps) simp
  next
    case False
    have er: "erase ?res (Suc (length A)) ?n = Inr (A @ nl # ?E r)"
      by (rule erase_pad)
    have unfold: "Trim_dedent ?n ?res (length A)
          = (case find_char (A @ nl # ?E r) nl (Suc (length A)) of
               None \<Rightarrow> Inr (A @ nl # ?E r)
             | Some p \<Rightarrow> Trim_dedent ?n (A @ nl # ?E r) p)"
      using False
      by (subst Trim_dedent.simps) (simp only: Let_def dedent_len er Suc_eq_plus1 [symmetric]
            if_False sum.case not_le [symmetric])
    show ?thesis
    proof (cases "nl \<in> set r")
      case False
      then have E: "?E r = r" using less.prems by (intro escape_plain) simp_all
      have "find_char ((A @ [nl]) @ r) nl (length (A @ [nl])) = None"
        using False by (rule find_char_absent)
      then have "find_char (A @ nl # r) nl (Suc (length A)) = None" by simp
      then have "find_char (A @ nl # ?E r) nl (Suc (length A)) = None" by (simp only: E)
      then show ?thesis by (subst unfold) (simp add: E)
    next
      case True
      then obtain l r' where r: "r = l @ nl # r'" and l: "nl \<notin> set l"
        by (rule split_at_newline)
      have ldq: "dq \<notin> set l" and r'dq: "dq \<notin> set r'" using less.prems r by simp_all
      have El: "?E l = l" using ldq l by (intro escape_plain)
      have E: "?E r = l @ nl # replicate ?n sp @ ?E r'"
        unfolding r by (simp add: El) (simp add: escape_char_def)
      have "find_char ((A @ [nl]) @ l @ nl # (replicate ?n sp @ ?E r')) nl (length (A @ [nl]))
            = Some (length (A @ [nl]) + length l)"
        using l by (rule find_char_at)
      then have f: "find_char (A @ nl # ?E r) nl (Suc (length A)) = Some (length (A @ nl # l))"
        unfolding E by simp
      have "Trim_dedent ?n ((A @ nl # l) @ nl # replicate ?n sp @ ?E r') (length (A @ nl # l))
            = Inr ((A @ nl # l) @ nl # r')"
        using r'dq by (intro less.hyps) (simp_all add: r)
      then have rec: "Trim_dedent ?n (A @ nl # ?E r) (length (A @ nl # l)) = Inr (A @ nl # r)"
        by (simp add: r El escape_char_def)
      show ?thesis by (subst unfold) (simp only: f option.case rec)
    qed
  qed
qed


lemma Trim_unquoted:
  assumes "\<not> starts_with s dq" "\<not> starts_with s sp" "\<not> ends_with s sp" "length s < 2 ^ 64"
  shows "Trim s col = Inr s"
proof (cases "s = []")
  case True
  then show ?thesis
    by (simp add: Trim_def size_t_sub_def size_t_add_def substr_def starts_with_def)
next
  case False
  then have h: "hd s \<noteq> sp" "last s \<noteq> sp"
    using assms(2,3) by (cases s; simp add: starts_with_def ends_with_def)+
  have sc: "Trim_scan s 0 (0, size_t_sub (length s) 1, False) = (0, length s - 1, True)"
    using False h by (rule Trim_scan_trimmed)
  have su: "substr s 0 (size_t_add (size_t_sub (length s - 1) 0) 1) = Inr s"
    using False assms(4) by (rule substr_whole)
  show ?thesis by (simp only: Trim_def sc prod.case su sum.case assms(1) if_False)
qed

lemma Trim_quoted:
  assumes "dq \<notin> set s" "length (dq # concat (map (escape_char col) s) @ [dq]) < 2 ^ 64"
  shows "Trim (dq # concat (map (escape_char col) s) @ [dq]) (unat col) = Inr s"
proof -
  let ?E = "\<lambda>s. concat (map (escape_char col) s)"
  let ?tk = "dq # ?E s @ [dq]"
  have sc: "Trim_scan ?tk 0 (0, size_t_sub (length ?tk) 1, False) = (0, length ?tk - 1, True)"
    by (rule Trim_scan_trimmed) simp_all
  have su: "substr ?tk 0 (size_t_add (size_t_sub (length ?tk - 1) 0) 1) = Inr ?tk"
    using assms(2) by (intro substr_whole) simp_all
  have st: "starts_with ?tk dq" "ends_with ?tk dq"
    by (simp_all add: starts_with_def ends_with_def)
  have inner: "substr ?tk 1 (size_t_sub (length ?tk) 2) = Inr (?E s)"
    by (simp add: substr_def size_t_sub_def)
  have step: "Trim ?tk (unat col)
        = (case find_char (?E s) nl 0 of None \<Rightarrow> Inr (?E s)
           | Some p \<Rightarrow> Trim_dedent (unat col) (?E s) p)"
    unfolding Trim_def sc by (simp only: prod.case su sum.case st if_True inner)
  show ?thesis
  proof (cases "nl \<in> set s")
    case False
    then have E: "?E s = s" using assms(1) by (intro escape_plain)
    have "find_char s nl 0 = None" using False by (simp add: find_char_None_iff)
    then show ?thesis by (subst step) (simp add: E)
  next
    case True
    then obtain l r where s: "s = l @ nl # r" and l: "nl \<notin> set l"
      by (rule split_at_newline)
    have ldq: "dq \<notin> set l" and rdq: "dq \<notin> set r" using assms(1) s by simp_all
    have El: "?E l = l" using ldq l by (intro escape_plain)
    have E: "?E s = l @ nl # replicate (unat col) sp @ ?E r"
      by (simp add: s El escape_char_def)
    have "find_char ([] @ l @ nl # (replicate (unat col) sp @ ?E r)) nl (length ([] :: string))
          = Some (length ([] :: string) + length l)"
      using l by (rule find_char_at)
    then have f: "find_char (?E s) nl 0 = Some (length l)" by (simp add: E)
    have d: "Trim_dedent (unat col) (?E s) (length l) = Inr s"
      using Trim_dedent_escape [OF rdq, of col l] by (simp add: s El escape_char_def)
    show ?thesis by (simp only: step f option.case d)
  qed
qed

lemma Trim_sanitize_string:
  assumes "dq \<notin> set s" "length (sanitize_string s col) < 2 ^ 64"
  shows "Trim (sanitize_string s col) (unat col) = Inr s"
proof (cases "needs_quotes s")
  case True
  then show ?thesis using assms Trim_quoted [of s col]
    by (simp add: sanitize_string_closed)
next
  case False
  then have "\<not> starts_with s dq" "\<not> starts_with s sp" "\<not> ends_with s sp"
    by (simp_all add: needs_quotes_def)
  moreover have "length s < 2 ^ 64" using assms(2) False by (simp add: sanitize_string_closed)
  ultimately have "Trim s (unat col) = Inr s" by (rule Trim_unquoted)
  then show ?thesis using False by (simp add: sanitize_string_closed)
qed



section \<open>Paragraphs\<close>

text \<open>
  The tokens of a document without double quotes, and of the two lines \<open>k: a\<close> and
  \<open>b\<close>, the second indented by \<open>n\<close> spaces.
\<close>

lemma step_pc: "c \<noteq> dq \<Longrightarrow> step (pc, c, nc) s = step (nul, c, nc) s"
  by (simp add: step_def Tokenize_track_closed Let_def)

lemma scanf_append:
  "scanf (xs @ ys) follow s
   = scanf ys follow (scanf xs (case ys of [] \<Rightarrow> follow | y # _ \<Rightarrow> y) s)"
proof (induction xs arbitrary: s)
  case Nil
  show ?case by simp
next
  case (Cons x xs)
  let ?f = "case ys of [] \<Rightarrow> follow | y # _ \<Rightarrow> y"
  have nc: "(case xs @ ys of [] \<Rightarrow> follow | n # _ \<Rightarrow> n) = (case xs of [] \<Rightarrow> ?f | n # _ \<Rightarrow> n)"
    by (cases xs) simp_all
  have "scanf ((x # xs) @ ys) follow s
        = scanf (xs @ ys) follow (step (nul, x, case xs of [] \<Rightarrow> ?f | n # _ \<Rightarrow> n) s)"
    by (simp only: append_Cons scanf.simps nc)
  also have "\<dots> = scanf ys follow (scanf xs ?f (step (nul, x, case xs of [] \<Rightarrow> ?f | n # _ \<Rightarrow> n) s))"
    by (rule Cons.IH)
  also have "\<dots> = scanf ys follow (scanf (x # xs) ?f s)" by (simp only: scanf.simps)
  finally show ?case .
qed

lemma fold_window_scanf:
  assumes "dq \<notin> set data"
  shows "i \<le> length data \<Longrightarrow>
         fold (\<lambda>k. step (window data k)) [i..<length data] s = scanf (drop i data) nul s"
proof (induction "length data - i" arbitrary: i s)
  case 0
  then show ?case by simp
next
  case (Suc m)
  then have i: "i < length data" by simp
  have d: "drop i data = data ! i # drop (Suc i) data"
    using i by (simp add: Cons_nth_drop_Suc)
  have c: "data ! i \<noteq> dq" using assms i by (metis nth_mem)
  have nc: "next_char data i = (case drop (Suc i) data of [] \<Rightarrow> nul | n # _ \<Rightarrow> n)"
  proof (cases "Suc i < length data")
    case True
    then have "drop (Suc i) data = data ! Suc i # drop (Suc (Suc i)) data"
      by (simp add: Cons_nth_drop_Suc)
    then show ?thesis using True by (simp add: next_char_def)
  next
    case False
    then show ?thesis by (simp add: next_char_def)
  qed
  have "fold (\<lambda>k. step (window data k)) [i..<length data] s
        = fold (\<lambda>k. step (window data k)) [Suc i..<length data] (step (window data i) s)"
    using i by (simp add: upt_conv_Cons)
  also have "\<dots> = scanf (drop (Suc i) data) nul (step (window data i) s)"
    using Suc i by (intro Suc.hyps(1)) simp_all
  also have "step (window data i) s = step (nul, data ! i, next_char data i) s"
    unfolding window_def by (rule step_pc [OF c])
  finally show ?case unfolding d nc by simp
qed

lemma Tokenize_scanf:
  "dq \<notin> set data \<Longrightarrow> Tokenize data = Inr (tokens (scanf data nul tokenizer_init))"
  using fold_window_scanf [of data 0 tokenizer_init] by (simp add: Tokenize_fold)

lemma step_space_idle:
  assumes "idle False s"
  shows "tokens (step (pc, sp, nc) s) = tokens s \<and> idle False (step (pc, sp, nc) s)
         \<and> partialToken (step (pc, sp, nc) s) = partialToken s @ [sp]
         \<and> charCol (step (pc, sp, nc) s) = charCol s + 1
         \<and> charLine (step (pc, sp, nc) s) = charLine s"
  using assms
  by (simp add: idle_def step_def emit_def Tokenize_track_closed Let_def isDelimiter_def)

lemma step_newline_idle:
  assumes "idle False s"
  shows "tokens (step (pc, nl, nc) s) = tokens s \<and> idle False (step (pc, nl, nc) s)
         \<and> partialToken (step (pc, nl, nc) s) = partialToken s
         \<and> charCol (step (pc, nl, nc) s) = 0
         \<and> charLine (step (pc, nl, nc) s) = charLine s + 1"
  using assms
  by (simp add: idle_def step_def emit_def Tokenize_track_closed Let_def isDelimiter_def)

lemma step_colon_idle:
  assumes "idle False s"
  shows "tokens (step (pc, CHR '':'', nc) s) = tokens s @ [Colon_token (charCol s + 1) (charLine s)]
         \<and> idle False (step (pc, CHR '':'', nc) s)
         \<and> partialToken (step (pc, CHR '':'', nc) s) = []
         \<and> charCol (step (pc, CHR '':'', nc) s) = charCol s + 1
         \<and> charLine (step (pc, CHR '':'', nc) s) = charLine s"
  using assms
  by (simp add: idle_def step_def emit_def Tokenize_track_closed Let_def isDelimiter_def
        Colon_token_def)

lemma step_in_token_more:
  assumes "in_token s" "\<not> isDelimiter c" "\<not> isDelimiter nc"
  shows "in_token (step (pc, c, nc) s) \<and> tokens (step (pc, c, nc) s) = tokens s
         \<and> partialToken (step (pc, c, nc) s) = partialToken s @ [c]
         \<and> charCol (step (pc, c, nc) s) = charCol s + 1
         \<and> charLine (step (pc, c, nc) s) = charLine s
         \<and> tokenStartCol (step (pc, c, nc) s) = tokenStartCol s
         \<and> tokenStartLine (step (pc, c, nc) s) = tokenStartLine s"
  using assms
  by (auto simp add: in_token_def step_def emit_def Tokenize_track_closed Let_def isDelimiter_def)

lemma step_in_token_last:
  assumes "in_token s" "\<not> isDelimiter c" "isDelimiter nc"
  shows "idle False (step (pc, c, nc) s)
         \<and> tokens (step (pc, c, nc) s)
             = tokens s @ [Text_token (Trim_result (partialToken s @ [c]) (unat (tokenStartCol s)))
                             (tokenStartCol s) (tokenStartLine s)]
         \<and> partialToken (step (pc, c, nc) s) = []
         \<and> charCol (step (pc, c, nc) s) = charCol s + 1
         \<and> charLine (step (pc, c, nc) s) = charLine s"
  using assms
  by (auto simp add: in_token_def idle_def step_def emit_def Tokenize_track_closed Let_def
        isDelimiter_def Text_token_def)

lemma step_first:
  assumes "idle False s" "\<not> isDelimiter c" "c \<noteq> sp" "c \<noteq> dq"
  shows "in_token (step (pc, c, nc) s) \<or> isDelimiter nc"
    and "\<not> isDelimiter nc \<Longrightarrow>
         tokens (step (pc, c, nc) s) = tokens s
         \<and> partialToken (step (pc, c, nc) s) = partialToken s @ [c]
         \<and> charCol (step (pc, c, nc) s) = charCol s + 1
         \<and> charLine (step (pc, c, nc) s) = charLine s
         \<and> tokenStartCol (step (pc, c, nc) s) = charCol s + 1
         \<and> tokenStartLine (step (pc, c, nc) s) = charLine s"
    and "isDelimiter nc \<Longrightarrow>
         idle False (step (pc, c, nc) s)
         \<and> tokens (step (pc, c, nc) s)
             = tokens s @ [Text_token (Trim_result (partialToken s @ [c]) (unat (charCol s + 1)))
                             (charCol s + 1) (charLine s)]
         \<and> partialToken (step (pc, c, nc) s) = []
         \<and> charCol (step (pc, c, nc) s) = charCol s + 1
         \<and> charLine (step (pc, c, nc) s) = charLine s"
  using assms
  by (auto simp add: in_token_def idle_def step_def emit_def Tokenize_track_closed Let_def
        isDelimiter_def Text_token_def)


lemma scanf_spaces:
  "idle False s \<Longrightarrow>
   tokens (scanf (replicate m sp) d s) = tokens s \<and> idle False (scanf (replicate m sp) d s)
   \<and> partialToken (scanf (replicate m sp) d s) = partialToken s @ replicate m sp
   \<and> charCol (scanf (replicate m sp) d s) = charCol s + of_nat m
   \<and> charLine (scanf (replicate m sp) d s) = charLine s"
proof (induction m arbitrary: s)
  case 0
  then show ?case by simp
next
  case (Suc m)
  let ?nc = "case replicate m sp of [] \<Rightarrow> d | n # _ \<Rightarrow> n"
  let ?s1 = "step (nul, sp, ?nc) s"
  note a = step_space_idle [OF Suc.prems, of nul ?nc]
  note b = Suc.IH [of ?s1, OF conjunct1 [OF conjunct2 [OF a]]]
  show ?case using a b by (simp add: replicate_app_Cons_same)
qed

lemma scanf_in_token:
  "in_token s \<Longrightarrow> w \<noteq> [] \<Longrightarrow> \<forall>c \<in> set w. \<not> isDelimiter c \<Longrightarrow> isDelimiter d \<Longrightarrow>
   idle False (scanf w d s)
   \<and> tokens (scanf w d s)
       = tokens s @ [Text_token (Trim_result (partialToken s @ w) (unat (tokenStartCol s)))
                       (tokenStartCol s) (tokenStartLine s)]
   \<and> partialToken (scanf w d s) = []
   \<and> charCol (scanf w d s) = charCol s + of_nat (length w)
   \<and> charLine (scanf w d s) = charLine s"
proof (induction w arbitrary: s)
  case Nil
  then show ?case by simp
next
  case (Cons c w)
  show ?case
  proof (cases w)
    case Nil
    from step_in_token_last [OF Cons.prems(1) _ Cons.prems(4), of c nul] Cons.prems(3)
    show ?thesis by (simp add: Nil)
  next
    case (Cons c' w')
    have nd: "\<not> isDelimiter c" "\<not> isDelimiter c'" using Cons.prems(3) Cons by simp_all
    let ?s1 = "step (nul, c, c') s"
    note a = step_in_token_more [OF Cons.prems(1) nd, of nul]
    have "w \<noteq> []" "\<forall>c \<in> set w. \<not> isDelimiter c" using Cons Cons.prems(3) by simp_all
    note b = Cons.IH [of ?s1, OF conjunct1 [OF a] this Cons.prems(4)]
    show ?thesis using a b by (simp add: Cons)
  qed
qed

lemma scanf_word:
  assumes "idle False s" "plain_text w" "isDelimiter d"
  shows "idle False (scanf w d s)
   \<and> tokens (scanf w d s)
       = tokens s @ [Text_token (Trim_result (partialToken s @ w) (unat (charCol s + 1)))
                       (charCol s + 1) (charLine s)]
   \<and> partialToken (scanf w d s) = []
   \<and> charCol (scanf w d s) = charCol s + of_nat (length w)
   \<and> charLine (scanf w d s) = charLine s"
proof -
  from assms(2) obtain c w' where w: "w = c # w'" by (cases w) (simp_all add: plain_text_def)
  have c: "\<not> isDelimiter c" "c \<noteq> sp" "c \<noteq> dq" using assms(2) w by (simp_all add: plain_text_def)
  show ?thesis
  proof (cases w')
    case Nil
    from step_first(3) [OF assms(1) c assms(3), of nul] show ?thesis by (simp add: w Nil)
  next
    case (Cons c' w'')
    have nd: "\<not> isDelimiter c'" using assms(2) w Cons by (simp add: plain_text_def)
    let ?s1 = "step (nul, c, c') s"
    note a = step_first(2) [OF assms(1) c nd, of nul]
    have it: "in_token ?s1" using step_first(1) [OF assms(1) c, of nul c'] nd by simp
    have "w' \<noteq> []" "\<forall>c \<in> set w'. \<not> isDelimiter c"
      using Cons assms(2) w by (simp_all add: plain_text_def)
    note b = scanf_in_token [OF it this assms(3)]
    show ?thesis using a b by (simp add: w Cons)
  qed
qed

lemma Trim_scan_spaces: "Trim_scan (replicate m sp) i st = st"
  by (induction m arbitrary: i) (cases st; simp)+

lemma Trim_scan_word:
  assumes "w \<noteq> []" "hd w \<noteq> sp" "last w \<noteq> sp"
  shows "Trim_scan w i (s0, e0, False) = (i, i + length w - 1, True)"
proof (cases w)
  case Nil
  with assms show ?thesis by simp
next
  case (Cons c0 r)
  show ?thesis
  proof (cases r rule: rev_cases)
    case Nil
    then show ?thesis using assms Cons by simp
  next
    case (snoc mid cl)
    obtain e1 where e1: "Trim_scan mid (Suc i) (i, i, True) = (i, e1, True)"
      using Trim_scan_found by blast
    have "Trim_scan w i (s0, e0, False) = Trim_scan (mid @ [cl]) (Suc i) (i, i, True)"
      using assms Cons snoc by simp
    also have "\<dots> = Trim_scan [cl] (Suc i + length mid) (i, e1, True)"
      by (simp add: Trim_scan_append e1)
    also have "\<dots> = (i, Suc i + length mid, True)" using assms Cons snoc by simp
    finally show ?thesis by (simp add: Cons snoc)
  qed
qed

lemma Trim_padded_word:
  assumes "plain_text w" "m + length w < 2 ^ 64"
  shows "Trim_result (replicate m sp @ w) col = w"
proof -
  have w: "w \<noteq> []" "hd w \<noteq> sp" "last w \<noteq> sp" "hd w \<noteq> dq"
    using assms(1) by (auto simp: plain_text_def)
  have sc: "Trim_scan (replicate m sp @ w) 0 (0, size_t_sub (length (replicate m sp @ w)) 1, False)
            = (m, m + length w - 1, True)"
    by (simp add: Trim_scan_append Trim_scan_spaces Trim_scan_word [OF w(1,2,3)])
  have n: "size_t_add (size_t_sub (m + length w - 1) m) 1 = length w"
    using w(1) assms(2) by (cases w) (simp_all add: size_t_add_def size_t_sub_def)
  have su: "substr (replicate m sp @ w) m (size_t_add (size_t_sub (m + length w - 1) m) 1) = Inr w"
    unfolding n by (simp add: substr_def)
  have st: "\<not> starts_with w dq" using w by (cases w) (simp_all add: starts_with_def)
  have "Trim (replicate m sp @ w) col = Inr w"
    by (simp only: Trim_def sc prod.case su sum.case st if_False)
  then show ?thesis by (simp add: Trim_result_def)
qed

lemma paragraph_document_tokens:
  assumes k: "plain_text k" and a: "plain_text a" and b: "plain_text b"
    and lens: "1 + length a < 2 ^ 64" "n + length b < 2 ^ 64" "length k < 2 ^ 64"
  shows "Tokenize (k @ '': '' @ a @ [nl] @ replicate n sp @ b)
         = Inr [Text_token k 1 1,
                Colon_token (of_nat (length k) + 1) 1,
                Text_token a (of_nat (length k) + 3) 1,
                Text_token b (of_nat n + 1) 2]"
proof -
  let ?data = "k @ '': '' @ a @ [nl] @ replicate n sp @ b"
  have nodq: "dq \<notin> set ?data" using k a b by (auto simp: plain_text_def)
  have del: "isDelimiter CHR '':''" "isDelimiter nl" "isDelimiter nul"
    by (simp_all add: isDelimiter_def)
  obtain a0 ar where a_eq: "a = a0 # ar" using a by (cases a) (simp_all add: plain_text_def)
  obtain b0 br where b_eq: "b = b0 # br" using b by (cases b) (simp_all add: plain_text_def)
  define s0 where "s0 = tokenizer_init"
  define s1 where "s1 = scanf k CHR '':'' s0"
  define s2 where "s2 = step (nul, CHR '':'', sp) s1"
  define s3 where "s3 = step (nul, sp, a0) s2"
  define s4 where "s4 = scanf a nl s3"
  define s5 where "s5 = step (nul, nl, (case replicate n sp @ b of [] \<Rightarrow> nul | x # _ \<Rightarrow> x)) s4"
  define s6 where "s6 = scanf (replicate n sp) b0 s5"
  define s7 where "s7 = scanf b nul s6"
  have run: "scanf ?data nul s0 = s7"
  proof -
    have "scanf ?data nul s0 = scanf ('': '' @ a @ [nl] @ replicate n sp @ b) nul s1"
      by (simp add: scanf_append [of k] s1_def)
    also have "\<dots> = scanf (a @ [nl] @ replicate n sp @ b) nul s3"
      by (simp add: s2_def s3_def a_eq)
    also have "\<dots> = scanf ([nl] @ replicate n sp @ b) nul s4"
      by (simp add: scanf_append [of a] s4_def)
    also have "\<dots> = scanf (replicate n sp @ b) nul s5"
      by (simp add: s5_def)
    also have "\<dots> = scanf b nul s6"
      by (simp add: scanf_append [of "replicate n sp"] s6_def b_eq)
    finally show ?thesis by (simp add: s7_def)
  qed
  have i0: "idle False s0" "tokens s0 = []" "partialToken s0 = []" "charCol s0 = 0" "charLine s0 = 1"
    by (simp_all add: s0_def idle_def tokenizer_init_def)
  note r1 = scanf_word [OF i0(1) k del(1), folded s1_def, unfolded i0]
  note r2 = step_colon_idle [OF conjunct1 [OF r1], of nul sp, folded s2_def]
  note r3 = step_space_idle [OF conjunct1 [OF conjunct2 [OF r2]], of nul a0, folded s3_def]
  note r4 = scanf_word [OF conjunct1 [OF conjunct2 [OF r3]] a del(2), folded s4_def]
  note r5 = step_newline_idle [OF conjunct1 [OF r4], of nul
              "case replicate n sp @ b of [] \<Rightarrow> nul | x # _ \<Rightarrow> x", folded s5_def]
  note r6 = scanf_spaces [OF conjunct1 [OF conjunct2 [OF r5]], of n b0, folded s6_def]
  note r7 = scanf_word [OF conjunct1 [OF conjunct2 [OF r6]] b del(3), folded s7_def]
  have t1: "Trim_result ([] @ k) (unat (0 + 1 :: 32 word)) = k"
    using Trim_padded_word [OF k, of 0] lens by simp
  have t2: "Trim_result ([sp] @ a) col = a" for col
    using Trim_padded_word [OF a, of 1] lens by simp
  have t3: "Trim_result (replicate n sp @ b) col = b" for col
    using Trim_padded_word [OF b, of n] lens by simp
  have "tokens s7 = [Text_token k 1 1,
                Colon_token (of_nat (length k) + 1) 1,
                Text_token a (of_nat (length k) + 3) 1,
                Text_token b (of_nat n + 1) 2]"
    using r1 r2 r3 r4 r5 r6 r7 t1 t2 t3 by (simp add: add.commute)
  then show ?thesis using Tokenize_scanf [OF nodq] run by (simp add: s0_def)
qed

lemma paragraph_document:
  assumes k: "plain_text k" and a: "plain_text a" and b: "plain_text b"
    and cols: "length k < n" "n + 1 < 2 ^ 32" "length k + 3 < 2 ^ 32"
    and lens: "1 + length a < 2 ^ 64" "n + length b < 2 ^ 64"
  shows "Parse (k @ '': '' @ a @ [nl] @ replicate n sp @ b)
         = Inr (Some (Node NodeNone [] [Node Key k [Node Value (a @ '' '' @ b) []]]))"
proof -
  have kpos: "0 < length k" using k by (simp add: plain_text_def)
  have toks: "Tokenize (k @ '': '' @ a @ [nl] @ replicate n sp @ b)
         = Inr [Text_token k 1 1,
                Colon_token (of_nat (length k) + 1) 1,
                Text_token a (of_nat (length k) + 3) 1,
                Text_token b (of_nat n + 1) 2]"
    using k a b lens cols by (intro paragraph_document_tokens) simp_all
  have w: "(of_nat x :: 32 word) < of_nat y" if "x < y" "y < 2 ^ 32" for x y :: nat
    using that by (simp add: of_nat_word_less_iff take_bit_nat_eq_self)
  have c12: "(1 :: 32 word) < of_nat (length k) + 1"
    using w [of 1 "length k + 1"] kpos cols by (simp add: add.commute)
  have c23: "(of_nat (length k) + 1 :: 32 word) < of_nat (length k) + 3"
    using w [of "length k + 1" "length k + 3"] cols by (simp add: add.commute)
  have c24: "(of_nat (length k) + 1 :: 32 word) < of_nat n + 1"
    using w [of "length k + 1" "n + 1"] cols by (simp add: add.commute)
  have raw: "Parse_loop
           [\<lparr>tok_type = Text, tok_text = k, tok_column = 1, tok_line = 1\<rparr>,
            \<lparr>tok_type = Colon, tok_text = [], tok_column = of_nat (length k) + 1, tok_line = 1\<rparr>,
            \<lparr>tok_type = Text, tok_text = a, tok_column = of_nat (length k) + 3, tok_line = 1\<rparr>,
            \<lparr>tok_type = Text, tok_text = b, tok_column = of_nat n + 1, tok_line = 2\<rparr>]
           Node_default [root_frame]
         = Inr (Some (Node NodeNone [] [Node Key k [Node Group [] [Node Key a [], Node Key b []]]]))"
    using c12 c23 c24 by (intro paragraph_tokens) simp_all
  have simp: "Simplify (Node NodeNone [] [Node Key k [Node Group [] [Node Key a [], Node Key b []]]])
              = Node NodeNone [] [Node Key k [Node Value (a @ '' '' @ b) []]]"
    by (simp add: collapse_group_def merge_values_def retype_key_def MakeValue_def)
  show ?thesis
    unfolding Parse_def toks Text_token_def Colon_token_def
    by (simp only: sum.case raw option.case simp)
qed

text \<open>
  Claim C7.  When a \<^verbatim>\<open>Key\<close> or \<^verbatim>\<open>Group\<close> node has two or more children and all of
  them are \<^verbatim>\<open>Value\<close> nodes, \<^verbatim>\<open>Simplify\<close> leaves it with a single \<^verbatim>\<open>Value\<close> child
  whose text is the texts of the children in order, joined by one space each.

  Consequently a key whose value goes on in a second line parses to the key with one
  \<^verbatim>\<open>Value\<close>, the two texts joined by a single space.  This holds for the tokens: a
  key, its colon, a text to the right of the colon and a further text to the right of
  the colon with no colon of its own.  And it holds for the document of the two lines
  \<open>k: a\<close> and \<open>b\<close>, where the second line is indented by \<open>n\<close> spaces that bring
  \<open>b\<close> to the right of the colon, \<open>k\<close>, \<open>a\<close> and \<open>b\<close> are plain texts, and the
  columns and lengths fit their 32-bit and 64-bit integers.
\<close>

theorem adjacent_values_merge:
  "((ty = Key \<or> ty = Group) \<and> 2 \<le> length cs \<and> (\<forall>c \<in> set cs. m_type c = Value) \<longrightarrow>
      Simplify (Node ty tx cs) = Node ty tx [Node Value (join_with_space (map m_text cs)) []])
   \<and> (0 < c1 \<and> c1 < c2 \<and> c2 < c3 \<and> c2 < c4 \<longrightarrow>
        (\<exists>raw. Parse_loop
                  [\<lparr>tok_type = Text, tok_text = k, tok_column = c1, tok_line = l1\<rparr>,
                   \<lparr>tok_type = Colon, tok_text = [], tok_column = c2, tok_line = l1\<rparr>,
                   \<lparr>tok_type = Text, tok_text = a, tok_column = c3, tok_line = l1\<rparr>,
                   \<lparr>tok_type = Text, tok_text = b, tok_column = c4, tok_line = l2\<rparr>]
                  Node_default [root_frame] = Inr (Some raw)
           \<and> Simplify raw = Node NodeNone [] [Node Key k [Node Value (a @ '' '' @ b) []]]))
   \<and> (plain_text k \<and> plain_text a \<and> plain_text b
        \<and> length k < n \<and> n + 1 < 2 ^ 32 \<and> length k + 3 < 2 ^ 32
        \<and> 1 + length a < 2 ^ 64 \<and> n + length b < 2 ^ 64 \<longrightarrow>
        Parse (k @ '': '' @ a @ [nl] @ replicate n sp @ b)
          = Inr (Some (Node NodeNone [] [Node Key k [Node Value (a @ '' '' @ b) []]])))"
proof (intro conjI impI)
  assume "(ty = Key \<or> ty = Group) \<and> 2 \<le> length cs \<and> (\<forall>c \<in> set cs. m_type c = Value)"
  then show "Simplify (Node ty tx cs)
             = Node ty tx [Node Value (join_with_space (map m_text cs)) []]"
    by (intro Simplify_merge_values) simp_all
next
  assume c: "0 < c1 \<and> c1 < c2 \<and> c2 < c3 \<and> c2 < c4"
  let ?raw = "Node NodeNone [] [Node Key k [Node Group [] [Node Key a [], Node Key b []]]]"
  have "Simplify ?raw = Node NodeNone [] [Node Key k [Node Value (a @ '' '' @ b) []]]"
    by (simp add: collapse_group_def merge_values_def retype_key_def MakeValue_def)
  moreover have "Parse_loop
                  [\<lparr>tok_type = Text, tok_text = k, tok_column = c1, tok_line = l1\<rparr>,
                   \<lparr>tok_type = Colon, tok_text = [], tok_column = c2, tok_line = l1\<rparr>,
                   \<lparr>tok_type = Text, tok_text = a, tok_column = c3, tok_line = l1\<rparr>,
                   \<lparr>tok_type = Text, tok_text = b, tok_column = c4, tok_line = l2\<rparr>]
                  Node_default [root_frame] = Inr (Some ?raw)"
    using c by (intro paragraph_tokens) simp_all
  ultimately show "\<exists>raw. Parse_loop
                  [\<lparr>tok_type = Text, tok_text = k, tok_column = c1, tok_line = l1\<rparr>,
                   \<lparr>tok_type = Colon, tok_text = [], tok_column = c2, tok_line = l1\<rparr>,
                   \<lparr>tok_type = Text, tok_text = a, tok_column = c3, tok_line = l1\<rparr>,
                   \<lparr>tok_type = Text, tok_text = b, tok_column = c4, tok_line = l2\<rparr>]
                  Node_default [root_frame] = Inr (Some raw)
           \<and> Simplify raw = Node NodeNone [] [Node Key k [Node Value (a @ '' '' @ b) []]]"
    by blast
next
  assume "plain_text k \<and> plain_text a \<and> plain_text b
        \<and> length k < n \<and> n + 1 < 2 ^ 32 \<and> length k + 3 < 2 ^ 32
        \<and> 1 + length a < 2 ^ 64 \<and> n + length b < 2 ^ 64"
  then show "Parse (k @ '': '' @ a @ [nl] @ replicate n sp @ b)
          = Inr (Some (Node NodeNone [] [Node Key k [Node Value (a @ '' '' @ b) []]]))"
    by (intro paragraph_document) simp_all
qed

text \<open>
  Three values under a group, and the document of a key \<open>k\<close> whose value \<open>a\<close> goes on
  with \<open>b\<close> on the second line, under the \<open>a\<close>.
\<close>

theorem adjacent_values_merge_witness:
  "Simplify (Node Group [] [Node Value ''x'' [], Node Value ''y'' [], Node Value ''z'' []])
     = Node Group [] [Node Value ''x y z'' []]
   \<and> Parse (''k: a'' @ [nl] @ ''   b'')
     = Inr (Some (Node NodeNone [] [Node Key ''k'' [Node Value ''a b'' []]]))"
proof -
  have toks: "Tokenize (''k: a'' @ [nl] @ ''   b'')
     = Inr [\<lparr>tok_type = Text, tok_text = ''k'', tok_column = 1, tok_line = 1\<rparr>,
            \<lparr>tok_type = Colon, tok_text = [], tok_column = 2, tok_line = 1\<rparr>,
            \<lparr>tok_type = Text, tok_text = ''a'', tok_column = 4, tok_line = 1\<rparr>,
            \<lparr>tok_type = Text, tok_text = ''b'', tok_column = 4, tok_line = 2\<rparr>]"
    by (simp add: Tokenize_def Tokenize_loop.simps Tokenize_step_def Tokenize_track_def
          Tokenize_emit_def tokenizer_init_def
          prev_char_def next_char_def isDelimiter_def Trim_def size_t_sub_def size_t_add_def
          substr_def starts_with_def)
  have merge: "Simplify (Node Group [] [Node Value ''x'' [], Node Value ''y'' [], Node Value ''z'' []])
     = Node Group [] [Node Value ''x y z'' []]"
    using adjacent_values_merge
            [where ty = Group and tx = "[]"
               and cs = "[Node Value ''x'' [], Node Value ''y'' [], Node Value ''z'' []]",
             THEN conjunct1]
    by simp
  have "\<exists>raw. Parse_loop
                  [\<lparr>tok_type = Text, tok_text = ''k'', tok_column = 1, tok_line = 1\<rparr>,
                   \<lparr>tok_type = Colon, tok_text = [], tok_column = 2, tok_line = 1\<rparr>,
                   \<lparr>tok_type = Text, tok_text = ''a'', tok_column = 4, tok_line = 1\<rparr>,
                   \<lparr>tok_type = Text, tok_text = ''b'', tok_column = 4, tok_line = 2\<rparr>]
                  Node_default [root_frame] = Inr (Some raw)
           \<and> Simplify raw = Node NodeNone [] [Node Key ''k'' [Node Value (''a'' @ '' '' @ ''b'') []]]"
    using adjacent_values_merge
            [where ?c1.0 = 1 and ?c2.0 = 2 and ?c3.0 = 4 and ?c4.0 = 4 and k = "''k''"
               and a = "''a''" and b = "''b''" and ?l1.0 = 1 and ?l2.0 = 2,
             THEN conjunct2]
    by simp
  then obtain raw where
    r: "Parse_loop
          [\<lparr>tok_type = Text, tok_text = ''k'', tok_column = 1, tok_line = 1\<rparr>,
           \<lparr>tok_type = Colon, tok_text = [], tok_column = 2, tok_line = 1\<rparr>,
           \<lparr>tok_type = Text, tok_text = ''a'', tok_column = 4, tok_line = 1\<rparr>,
           \<lparr>tok_type = Text, tok_text = ''b'', tok_column = 4, tok_line = 2\<rparr>]
          Node_default [root_frame] = Inr (Some raw)"
    and sr: "Simplify raw = Node NodeNone [] [Node Key ''k'' [Node Value (''a'' @ '' '' @ ''b'') []]]"
    by blast
  have "Parse (''k: a'' @ [nl] @ ''   b'')
     = Inr (Some (Node NodeNone [] [Node Key ''k'' [Node Value ''a b'' []]]))"
    by (simp only: Parse_def toks [simplified] r sr sum.case option.case append.simps)
  moreover have "Parse (''k'' @ '': '' @ ''a'' @ [nl] @ replicate 3 sp @ ''b'')
     = Inr (Some (Node NodeNone [] [Node Key ''k'' [Node Value (''a'' @ '' '' @ ''b'') []]]))"
    using adjacent_values_merge
            [where k = "''k''" and a = "''a''" and b = "''b''" and n = 3,
             THEN conjunct2, THEN conjunct2]
    by (simp add: plain_text_def isDelimiter_def)
  ultimately show ?thesis using merge by (simp only: simp_thms)
qed

section \<open>Reading quoted values back\<close>


























lemma key_value_tokens:
  assumes "0 < c1" "c1 < c2" "c2 < c3"
  shows "Parse_loop
           [\<lparr>tok_type = Text, tok_text = k, tok_column = c1, tok_line = l1\<rparr>,
            \<lparr>tok_type = Colon, tok_text = [], tok_column = c2, tok_line = l2\<rparr>,
            \<lparr>tok_type = Text, tok_text = a, tok_column = c3, tok_line = l3\<rparr>]
           Node_default [root_frame]
         = Inr (Some (Node NodeNone [] [Node Key k [Node Group [] [Node Key a []]]]))"
  using assms
  by (simp add: root_frame_def Token_default_def Node_default_def MakeKey_def MakeGroup_def
        added_node_def)









text \<open>
  The two conditions on the setting are needed.  When the text ends with a backslash,
  the closing quote that the serializer writes follows that backslash, the tokenizer
  takes it for an escaped quote, and the token never ends: the output has no tokens.
\<close>

lemma quoted_value_ending_in_backslash_is_lost:
  "Serialize (Node NodeNone [] [Node Value (''a'' @ [nl] @ ''b'' @ [bs]) []])
     = [dq] @ ''a'' @ [nl] @ '' b'' @ [bs, dq, nl]
   \<and> Tokenize ([dq] @ ''a'' @ [nl] @ '' b'' @ [bs, dq, nl]) = Inr []
   \<and> Parse ([dq] @ ''a'' @ [nl] @ '' b'' @ [bs, dq, nl]) = Inr (Some (Node NodeNone [] []))"
proof -
  have s1: "Serialize (Node NodeNone [] [Node Value (''a'' @ [nl] @ ''b'' @ [bs]) []])
     = [dq] @ ''a'' @ [nl] @ '' b'' @ [bs, dq, nl]"
    by (simp add: Serialize_def SimplifyCopy_def collapse_group_def merge_values_def
          retype_key_def sanitize_string_closed needs_quotes_def escape_char_def)
  have t1: "Tokenize ([dq] @ ''a'' @ [nl] @ '' b'' @ [bs, dq, nl]) = Inr []"
    by (simp add: Tokenize_def Tokenize_loop.simps Tokenize_step_def Tokenize_track_def
          Tokenize_emit_def tokenizer_init_def prev_char_def next_char_def isDelimiter_def)
  have p1: "Parse ([dq] @ ''a'' @ [nl] @ '' b'' @ [bs, dq, nl]) = Inr (Some (Node NodeNone [] []))"
    using t1 by (rule Parse_no_tokens)
  from s1 t1 p1 show ?thesis by (simp only: simp_thms)
qed

text \<open>
  When the text of the key holds a newline, the key is quoted and its second line puts
  the opening quote of the value at column 6, while the serializer pads the value for
  column 9, the length of the quoted key plus 3: three spaces of the padding stay in the
  text that is read back.
\<close>

lemma value_under_multiline_key_is_changed:
  "Serialize (Node NodeNone [] [Node Key (''p'' @ [nl] @ ''q'') [Node Value (''a'' @ [nl] @ ''b'') []]])
     = [dq] @ ''p'' @ [nl] @ '' q'' @ [dq] @ '': '' @ [dq] @ ''a'' @ [nl] @ replicate 9 sp @ ''b''
       @ [dq, nl]
   \<and> Tokenize ([dq] @ ''p'' @ [nl] @ '' q'' @ [dq] @ '': '' @ [dq] @ ''a'' @ [nl]
                 @ replicate 9 sp @ ''b'' @ [dq, nl])
     = Inr [Text_token (''p'' @ [nl] @ ''q'') 1 1, Colon_token 4 2,
            Text_token (''a'' @ [nl] @ ''   b'') 6 2]
   \<and> Parse ([dq] @ ''p'' @ [nl] @ '' q'' @ [dq] @ '': '' @ [dq] @ ''a'' @ [nl]
              @ replicate 9 sp @ ''b'' @ [dq, nl])
     = Inr (Some (Node NodeNone [] [Node Key (''p'' @ [nl] @ ''q'')
                                      [Node Value (''a'' @ [nl] @ ''   b'') []]]))"
proof -
  have nine: "replicate 9 sp = ''         ''" by (simp add: eval_nat_numeral)
  have s1: "Serialize (Node NodeNone [] [Node Key (''p'' @ [nl] @ ''q'') [Node Value (''a'' @ [nl] @ ''b'') []]])
     = [dq] @ ''p'' @ [nl] @ '' q'' @ [dq] @ '': '' @ [dq] @ ''a'' @ [nl] @ replicate 9 sp @ ''b''
       @ [dq, nl]"
    by (simp add: Serialize_def SimplifyCopy_def collapse_group_def merge_values_def
          retype_key_def sanitize_string_closed needs_quotes_def escape_char_def
          starts_with_def ends_with_def nine)
  have t1: "Tokenize ([dq] @ ''p'' @ [nl] @ '' q'' @ [dq] @ '': '' @ [dq] @ ''a'' @ [nl]
                 @ replicate 9 sp @ ''b'' @ [dq, nl])
     = Inr [Text_token (''p'' @ [nl] @ ''q'') 1 1, Colon_token 4 2,
            Text_token (''a'' @ [nl] @ ''   b'') 6 2]"
    by (simp add: nine Tokenize_def Tokenize_loop.simps Tokenize_step_def Tokenize_track_def
          Tokenize_emit_def tokenizer_init_def prev_char_def next_char_def isDelimiter_def
          Trim_def Trim_dedent.simps size_t_sub_def size_t_add_def substr_def erase_def
          starts_with_def ends_with_def find_char_def Text_token_def Colon_token_def)
  have raw: "Parse_loop
           [\<lparr>tok_type = Text, tok_text = ''p'' @ [nl] @ ''q'', tok_column = 1, tok_line = 1\<rparr>,
            \<lparr>tok_type = Colon, tok_text = [], tok_column = 4, tok_line = 2\<rparr>,
            \<lparr>tok_type = Text, tok_text = ''a'' @ [nl] @ ''   b'', tok_column = 6, tok_line = 2\<rparr>]
           Node_default [root_frame]
         = Inr (Some (Node NodeNone [] [Node Key (''p'' @ [nl] @ ''q'')
                  [Node Group [] [Node Key (''a'' @ [nl] @ ''   b'') []]]]))"
    by (intro key_value_tokens) simp_all
  have simp: "Simplify (Node NodeNone [] [Node Key (''p'' @ [nl] @ ''q'')
                  [Node Group [] [Node Key (''a'' @ [nl] @ ''   b'') []]]])
              = Node NodeNone [] [Node Key (''p'' @ [nl] @ ''q'')
                                      [Node Value (''a'' @ [nl] @ ''   b'') []]]"
    by (simp add: collapse_group_def merge_values_def retype_key_def)
  have p1: "Parse ([dq] @ ''p'' @ [nl] @ '' q'' @ [dq] @ '': '' @ [dq] @ ''a'' @ [nl]
              @ replicate 9 sp @ ''b'' @ [dq, nl])
     = Inr (Some (Node NodeNone [] [Node Key (''p'' @ [nl] @ ''q'')
                                      [Node Value (''a'' @ [nl] @ ''   b'') []]]))"
    unfolding Parse_def t1 Text_token_def Colon_token_def
    by (simp only: sum.case raw option.case simp)
  from s1 t1 p1 show ?thesis by (simp only: simp_thms)
qed

section \<open>The round trip\<close>

text \<open>
  Claim C1: for every document \<open>d\<close> that parses, parsing the serialization of
  \<open>Parse d\<close> gives \<open>Parse d\<close> again.  The code does not do this for the document
  that consists of the quoted token \<open>\":\<close> (a double quote, a backslash, a double
  quote, a colon, a double quote).  The tokenizer keeps the backslash of the escaped
  quote in the text, the serializer escapes the quote of that text with a second
  backslash, and the second parse has a text with two backslashes.
\<close>

theorem round_trip_adds_backslash:
  "Parse [dq, bs, dq, CHR '':'', dq]
     = Inr (Some (Node NodeNone [] [Node Value [bs, dq, CHR '':''] []]))
   \<and> Serialize (Node NodeNone [] [Node Value [bs, dq, CHR '':''] []])
     = [dq, bs, bs, dq, CHR '':'', dq, nl]
   \<and> Parse [dq, bs, bs, dq, CHR '':'', dq, nl]
     = Inr (Some (Node NodeNone [] [Node Value [bs, bs, dq, CHR '':''] []]))
   \<and> Parse (Serialize (Node NodeNone [] [Node Value [bs, dq, CHR '':''] []]))
     \<noteq> Parse [dq, bs, dq, CHR '':'', dq]"
proof -
  have p1: "Parse [dq, bs, dq, CHR '':'', dq]
     = Inr (Some (Node NodeNone [] [Node Value [bs, dq, CHR '':''] []]))"
    by (simp add: Parse_def Tokenize_def Tokenize_loop.simps Tokenize_step_def
          Tokenize_track_def Tokenize_emit_def tokenizer_init_def prev_char_def next_char_def
          isDelimiter_def Trim_def size_t_sub_def size_t_add_def substr_def starts_with_def
          ends_with_def find_char_def root_frame_def Token_default_def Node_default_def
          MakeKey_def added_node_def collapse_group_def merge_values_def retype_key_def)
  have s1: "Serialize (Node NodeNone [] [Node Value [bs, dq, CHR '':''] []])
     = [dq, bs, bs, dq, CHR '':'', dq, nl]"
    by (simp add: Serialize_def SimplifyCopy_def collapse_group_def merge_values_def
          retype_key_def sanitize_string_def find_char_def)
  have p2: "Parse [dq, bs, bs, dq, CHR '':'', dq, nl]
     = Inr (Some (Node NodeNone [] [Node Value [bs, bs, dq, CHR '':''] []]))"
    by (simp add: Parse_def Tokenize_def Tokenize_loop.simps Tokenize_step_def
          Tokenize_track_def Tokenize_emit_def tokenizer_init_def prev_char_def next_char_def
          isDelimiter_def Trim_def size_t_sub_def size_t_add_def substr_def starts_with_def
          ends_with_def find_char_def root_frame_def Token_default_def Node_default_def
          MakeKey_def added_node_def collapse_group_def merge_values_def retype_key_def)
  have "Parse (Serialize (Node NodeNone [] [Node Value [bs, dq, CHR '':''] []]))
     \<noteq> Parse [dq, bs, dq, CHR '':'', dq]"
    unfolding s1 p1 p2 by simp
  with p1 s1 p2 show ?thesis by (simp only: simp_thms)
qed

text \<open>
  A second document on which the round trip fails: the key \<open>a\<close> with the empty quoted
  value.  The serializer writes the empty text without quotes, and the second parse
  finds the key alone, which it turns into a value.
\<close>

lemma round_trip_loses_empty_value:
  "Parse (''a: '' @ [dq, dq]) = Inr (Some (Node NodeNone [] [Node Key ''a'' [Node Value [] []]]))
   \<and> Serialize (Node NodeNone [] [Node Key ''a'' [Node Value [] []]]) = ''a: '' @ [nl]
   \<and> Parse (''a: '' @ [nl]) = Inr (Some (Node NodeNone [] [Node Value ''a'' []]))"
proof -
  have p1: "Parse (''a: '' @ [dq, dq])
     = Inr (Some (Node NodeNone [] [Node Key ''a'' [Node Value [] []]]))"
    by (simp add: Parse_def Tokenize_def Tokenize_loop.simps Tokenize_step_def
          Tokenize_track_def Tokenize_emit_def tokenizer_init_def prev_char_def next_char_def
          isDelimiter_def Trim_def size_t_sub_def size_t_add_def substr_def starts_with_def
          ends_with_def find_char_def root_frame_def Token_default_def Node_default_def
          MakeKey_def MakeGroup_def added_node_def collapse_group_def merge_values_def
          retype_key_def)
  have s1: "Serialize (Node NodeNone [] [Node Key ''a'' [Node Value [] []]]) = ''a: '' @ [nl]"
    by (simp add: Serialize_def SimplifyCopy_def collapse_group_def merge_values_def
          retype_key_def sanitize_string_def find_char_def starts_with_def ends_with_def)
  have p2: "Parse (''a: '' @ [nl]) = Inr (Some (Node NodeNone [] [Node Value ''a'' []]))"
    by (simp add: Parse_def Tokenize_def Tokenize_loop.simps Tokenize_step_def
          Tokenize_track_def Tokenize_emit_def tokenizer_init_def prev_char_def next_char_def
          isDelimiter_def Trim_def size_t_sub_def size_t_add_def substr_def starts_with_def
          root_frame_def Token_default_def Node_default_def
          MakeKey_def MakeGroup_def added_node_def collapse_group_def merge_values_def
          retype_key_def)
  from p1 s1 p2 show ?thesis by (simp only: simp_thms)
qed

end
